theory Spec2Isabelle
  imports Complex_Main
begin

section \<open>Data model\<close>

text \<open>
  The add-on \<^verbatim>\<open>normalize_armature_weights.py\<close> works on the host's object model.
  The parts of it that the code reads and writes are collected in one record.
  Weights are Python floats; they are modelled as \<^typ>\<open>real\<close>, so every statement
  below is about exact arithmetic.
\<close>

text \<open>One element of \<^verbatim>\<open>vert.groups\<close>: the group's index and the vertex's weight in it.\<close>

record group_info =
  group :: nat
  weight :: real

text \<open>A mesh vertex: its group entries, in the order the host stores them, and its
  edit-mode selection flag. The vertex's \<^verbatim>\<open>index\<close> is its position in
  \<^verbatim>\<open>obj.data.vertices\<close>.\<close>

record vertex =
  groups :: "group_info list"
  select :: bool

text \<open>A modifier of the object: \<^verbatim>\<open>mod.type\<close>, \<^verbatim>\<open>mod.use_vertex_groups\<close> and
  \<^verbatim>\<open>mod.object\<close>, which is \<^verbatim>\<open>None\<close> or an armature object, given here by the names of
  \<^verbatim>\<open>mod.object.data.bones\<close>.\<close>

record modifier =
  mod_type :: string
  use_vertex_groups :: bool
  mod_object :: "string list option"

text \<open>
  The context: \<^verbatim>\<open>obj.mode\<close>, \<^verbatim>\<open>context.scene.tool_settings.vertex_group_weight\<close>,
  the names of \<^verbatim>\<open>obj.vertex_groups\<close> (a group's \<^verbatim>\<open>index\<close> is its position),
  \<^verbatim>\<open>obj.vertex_groups.active_index\<close>, \<^verbatim>\<open>obj.data.vertices\<close> and \<^verbatim>\<open>obj.modifiers\<close>.
\<close>

record context_state =
  mode :: string
  vertex_group_weight :: real
  vertex_groups :: "string list"
  active_index :: nat
  vertices :: "vertex list"
  modifiers :: "modifier list"

datatype py_error = ValueError | AttributeError | TypeError

section \<open>The per-vertex normalization\<close>

text \<open>The locals of the loop body of \<^verbatim>\<open>normalize_armature\<close>, with \<^verbatim>\<open>groups\<close> itself,
  which the body mutates in place. The local \<^verbatim>\<open>sum\<close> is \<open>sum_w\<close>.\<close>

record gathered =
  g_groups :: "group_info list"
  active_group :: int
  weights :: "real list"
  indexes :: "nat list"
  sum_w :: real
  sum_other :: real

text \<open>\<^verbatim>\<open>groups[i].weight = w\<close>\<close>

definition set_weight :: "group_info list \<Rightarrow> nat \<Rightarrow> real \<Rightarrow> group_info list" where
  "set_weight gs i w = gs[i := (gs ! i)\<lparr>weight := w\<rparr>]"

text \<open>\<^verbatim>\<open>max(min(w, 1.0), 0.0)\<close>\<close>

definition clamp :: "real \<Rightarrow> real" where
  "clamp w = max (min w 1) 0"

text \<open>One iteration of \<^verbatim>\<open>for x, group in enumerate(groups)\<close> (lines 133 to 142).\<close>

definition gather_step :: "nat set \<Rightarrow> nat \<Rightarrow> nat \<times> group_info \<Rightarrow> gathered \<Rightarrow> gathered" where
  "gather_step bone_indexes active_idx = (\<lambda>(x, g) st.
     if group g \<in> bone_indexes then
       (let w = clamp (weight g) in
        st\<lparr>g_groups := set_weight (g_groups st) x w,
           weights := weights st @ [w],
           indexes := indexes st @ [x],
           sum_w := sum_w st + w,
           sum_other := (if group g \<noteq> active_idx then sum_other st + w else sum_other st),
           active_group := (if group g \<noteq> active_idx then active_group st else int x)\<rparr>)
     else st)"

definition gather :: "nat set \<Rightarrow> nat \<Rightarrow> group_info list \<Rightarrow> gathered" where
  "gather bone_indexes active_idx gs =
     fold (gather_step bone_indexes active_idx) (enumerate 0 gs)
       \<lparr>g_groups = gs, active_group = - 1, weights = [], indexes = [],
        sum_w = 0, sum_other = 0\<rparr>"

text \<open>\<^verbatim>\<open>xs.index(v)\<close>: the first position of \<open>v\<close>, or \<^verbatim>\<open>ValueError\<close>.\<close>

fun index_of :: "int list \<Rightarrow> int \<Rightarrow> py_error + nat" where
  "index_of [] v = Inl ValueError"
| "index_of (y # ys) v =
     (if y = v then Inr 0
      else (case index_of ys v of Inl e \<Rightarrow> Inl e | Inr k \<Rightarrow> Inr (Suc k)))"

text \<open>
  Lines 145 to 175. The index \<^verbatim>\<open>groups[active_group]\<close> is only reached after
  \<^verbatim>\<open>indexes.index(active_group)\<close> has succeeded, so \<open>active_group\<close> is not negative there.
\<close>

definition apply_normalization :: "gathered \<Rightarrow> py_error + group_info list" where
  "apply_normalization st =
     (if sum_w st \<noteq> 1 then
        if active_group st = - 1 \<and> sum_other st \<noteq> 0 then
          Inr (fold (\<lambda>(x, w) gs. set_weight gs (indexes st ! x) (w / sum_other st))
                 (enumerate 0 (weights st)) (g_groups st))
        else
          (case index_of (map int (indexes st)) (active_group st) of
             Inl e \<Rightarrow> Inl e
           | Inr k \<Rightarrow>
               if weights st ! k \<ge> 1 then
                 Inr (set_weight
                        (fold (\<lambda>(x, w) gs. set_weight gs (indexes st ! x) 0)
                           (enumerate 0 (weights st)) (g_groups st))
                        (nat (active_group st)) 1)
               else
                 (let bias = 1 - weight (g_groups st ! nat (active_group st)) in
                  if sum_other st \<noteq> 0 then
                    Inr (fold (\<lambda>(x, w) gs.
                                 if int (indexes st ! x) \<noteq> active_group st
                                 then set_weight gs (indexes st ! x) (bias * (w / sum_other st))
                                 else gs)
                           (enumerate 0 (weights st)) (g_groups st))
                  else if sum_w st \<noteq> 0 \<and> length (weights st) > 1 then
                    (let w = bias * (1 / real (length (weights st))) in
                     Inr (fold (\<lambda>x gs.
                                  if int (indexes st ! x) \<noteq> active_group st
                                  then set_weight gs (indexes st ! x) w
                                  else gs)
                            [0..<length (weights st)] (g_groups st)))
                  else Inr (g_groups st)))
      else Inr (g_groups st))"

text \<open>The body of \<^verbatim>\<open>for vert in obj.data.vertices\<close> (lines 124 to 175).\<close>

definition normalize_vertex :: "nat set \<Rightarrow> nat \<Rightarrow> vertex \<Rightarrow> py_error + vertex" where
  "normalize_vertex bone_indexes active_idx vert =
     (case apply_normalization (gather bone_indexes active_idx (groups vert)) of
        Inl e \<Rightarrow> Inl e
      | Inr gs \<Rightarrow> Inr (vert\<lparr>groups := gs\<rparr>))"

text \<open>\<^verbatim>\<open>for vert in obj.data.vertices\<close>: the first exception ends the loop.\<close>

fun normalize_vertices :: "nat set \<Rightarrow> nat \<Rightarrow> vertex list \<Rightarrow> py_error + vertex list" where
  "normalize_vertices bone_indexes active_idx [] = Inr []"
| "normalize_vertices bone_indexes active_idx (vert # verts) =
     (case normalize_vertex bone_indexes active_idx vert of
        Inl e \<Rightarrow> Inl e
      | Inr vert' \<Rightarrow>
          (case normalize_vertices bone_indexes active_idx verts of
             Inl e \<Rightarrow> Inl e
           | Inr verts' \<Rightarrow> Inr (vert' # verts')))"

section \<open>The host's operators\<close>

text \<open>
  The add-on drives the host through \<^verbatim>\<open>bpy.ops\<close>. The operators it calls are modelled
  by what they do to the fields of \<^typ>\<open>context_state\<close> on a mesh object.

  \<^verbatim>\<open>bpy.context.mode\<close> names the mode of a mesh object differently from \<^verbatim>\<open>obj.mode\<close>
  and from the argument of \<^verbatim>\<open>bpy.ops.object.mode_set\<close>.
\<close>

definition object_modes :: "string list" where
  "object_modes = [''OBJECT'', ''EDIT'', ''POSE'', ''SCULPT'', ''VERTEX_PAINT'',
     ''WEIGHT_PAINT'', ''TEXTURE_PAINT'', ''PARTICLE_EDIT'']"

definition context_mode :: "context_state \<Rightarrow> string" where
  "context_mode s =
     (if mode s = ''EDIT'' then ''EDIT_MESH''
      else if mode s = ''VERTEX_PAINT'' then ''PAINT_VERTEX''
      else if mode s = ''WEIGHT_PAINT'' then ''PAINT_WEIGHT''
      else if mode s = ''TEXTURE_PAINT'' then ''PAINT_TEXTURE''
      else if mode s = ''PARTICLE_EDIT'' then ''PARTICLE''
      else mode s)"

text \<open>\<^verbatim>\<open>bpy.ops.object.mode_set(mode = m, toggle = False)\<close>: a name outside the
  enumeration is a \<^verbatim>\<open>TypeError\<close>.\<close>

definition mode_set :: "string \<Rightarrow> context_state \<Rightarrow> py_error + context_state" where
  "mode_set m s = (if m \<in> set object_modes then Inr (s\<lparr>mode := m\<rparr>) else Inl TypeError)"

text \<open>\<^verbatim>\<open>bpy.ops.mesh.select_all(action = 'DESELECT')\<close>\<close>

definition select_all_DESELECT :: "context_state \<Rightarrow> context_state" where
  "select_all_DESELECT s = s\<lparr>vertices := map (\<lambda>v. v\<lparr>select := False\<rparr>) (vertices s)\<rparr>"

text \<open>The host's lookup of a vertex's entry for a group, which appends the entry when
  there is none; the weight is then overwritten.\<close>

fun assign_weight :: "group_info list \<Rightarrow> nat \<Rightarrow> real \<Rightarrow> group_info list" where
  "assign_weight [] g w = [\<lparr>group = g, weight = w\<rparr>]"
| "assign_weight (e # es) g w =
     (if group e = g then e\<lparr>weight := w\<rparr> # es else e # assign_weight es g w)"

text \<open>\<^verbatim>\<open>bpy.ops.object.vertex_group_assign()\<close>: every selected vertex gets the tool
  settings' weight in the active group; nothing happens without an active group.\<close>

definition vertex_group_assign :: "context_state \<Rightarrow> context_state" where
  "vertex_group_assign s =
     (if active_index s < length (vertex_groups s) then
        s\<lparr>vertices :=
            map (\<lambda>v. if select v
                      then v\<lparr>groups := assign_weight (groups v) (active_index s)
                                           (vertex_group_weight s)\<rparr>
                      else v)
              (vertices s)\<rparr>
      else s)"

section \<open>Restoring the mode\<close>

text \<open>\<^verbatim>\<open>p in s\<close> on strings.\<close>

fun contains :: "string \<Rightarrow> string \<Rightarrow> bool" where
  "contains p [] = (p = [])"
| "contains p (c # cs) = (take (length p) (c # cs) = p \<or> contains p cs)"

text \<open>\<^verbatim>\<open>s.split(c)\<close> for a separator of one character.\<close>

fun split :: "char \<Rightarrow> string \<Rightarrow> string list" where
  "split c [] = [[]]"
| "split c (x # xs) =
     (if x = c then [] # split c xs
      else (case split c xs of
              [] \<Rightarrow> [[x]]
            | w # ws \<Rightarrow> (x # w) # ws))"

text \<open>Lines 37 to 46.\<close>

definition restore_mode :: "string \<Rightarrow> context_state \<Rightarrow> py_error + context_state" where
  "restore_mode m s =
     (if contains ''EDIT'' m then mode_set ''EDIT'' s
      else if contains ''_'' m then
        (let parts = split CHR ''_'' m in mode_set (last parts @ ''_'' @ hd parts) s)
      else mode_set m s)"

section \<open>Ensuring membership\<close>

text \<open>Lines 66 to 70: \<open>not_found ! x\<close> collects the indices of the vertices with no entry
  for \<open>group_indexes ! x\<close>.\<close>

definition find_not_found :: "vertex list \<Rightarrow> nat list \<Rightarrow> nat list list" where
  "find_not_found verts group_indexes =
     fold (\<lambda>(vi, vert) not_found.
             fold (\<lambda>(x, index) not_found.
                     if \<not> (\<exists>gi \<in> set (groups vert). index = group gi)
                     then not_found[x := not_found ! x @ [vi]]
                     else not_found)
               (enumerate 0 group_indexes) not_found)
       (enumerate 0 verts)
       (map (\<lambda>i. []) group_indexes)"

text \<open>\<^verbatim>\<open>mesh.verts[vert].select = 1\<close>\<close>

definition select_vert :: "nat \<Rightarrow> context_state \<Rightarrow> context_state" where
  "select_vert vi s = s\<lparr>vertices := (vertices s)[vi := (vertices s ! vi)\<lparr>select := True\<rparr>]\<rparr>"

text \<open>One iteration of \<^verbatim>\<open>for x in range(len(group_indexes))\<close> (lines 74 to 81).\<close>

definition assign_group :: "nat list list \<Rightarrow> nat list \<Rightarrow> nat \<Rightarrow> context_state \<Rightarrow> context_state" where
  "assign_group not_found group_indexes x s =
     vertex_group_assign
       ((fold select_vert (not_found ! x) (select_all_DESELECT s))
          \<lparr>active_index := group_indexes ! x\<rparr>)"

text \<open>Lines 48 to 88.\<close>

definition assign_all_groups :: "context_state \<Rightarrow> nat list \<Rightarrow> py_error + context_state" where
  "assign_all_groups s group_indexes =
     (let m = context_mode s;
          old_weight = vertex_group_weight s
      in case mode_set ''EDIT'' s of
           Inl e \<Rightarrow> Inl e
         | Inr s1 \<Rightarrow>
             (let active_idx = active_index s1;
                  s2 = s1\<lparr>vertex_group_weight := 0\<rparr>;
                  not_found = find_not_found (vertices s2) group_indexes;
                  s3 = fold (assign_group not_found group_indexes)
                         [0..<length group_indexes] s2
              in case restore_mode m s3 of
                   Inl e \<Rightarrow> Inl e
                 | Inr s4 \<Rightarrow>
                     Inr (s4\<lparr>vertex_group_weight := old_weight,
                             active_index := active_idx\<rparr>)))"

section \<open>The operator\<close>

datatype status = FINISHED | CANCELLED

type_synonym report = "string \<times> string"

text \<open>Lines 97 to 104: the search for the armature's bones, with its \<^verbatim>\<open>break\<close>.\<close>

fun find_bones :: "modifier list \<Rightarrow> string list \<Rightarrow> nat \<Rightarrow> string list \<times> nat" where
  "find_bones [] bones armatures = (bones, armatures)"
| "find_bones (m # ms) bones armatures =
     (case (if mod_type m = ''ARMATURE'' \<and> use_vertex_groups m then mod_object m else None) of
        None \<Rightarrow> find_bones ms bones armatures
      | Some names \<Rightarrow>
          if armatures + 1 = 2 then (names, armatures + 1)
          else find_bones ms names (armatures + 1))"

text \<open>Line 119.\<close>

definition get_bone_indexes :: "context_state \<Rightarrow> string list \<Rightarrow> nat list" where
  "get_bone_indexes s bones =
     [i \<leftarrow> [0..<length (vertex_groups s)]. vertex_groups s ! i \<in> set bones]"

text \<open>Lines 106 to 178, with the bones and the count that the search has found.
  \<^verbatim>\<open>obj.vertex_groups.active\<close> is \<^verbatim>\<open>None\<close> when the active index names no group, and
  reading its \<^verbatim>\<open>name\<close> is then an \<^verbatim>\<open>AttributeError\<close>.\<close>

definition normalize_with_bones ::
  "string list \<Rightarrow> nat \<Rightarrow> context_state \<Rightarrow> py_error + (report list \<times> status \<times> context_state)" where
  "normalize_with_bones bones armatures s =
     (if bones = [] then
        Inr ([(''ERROR'', ''No armature found on object.'')], CANCELLED, s)
      else if \<not> active_index s < length (vertex_groups s) then Inl AttributeError
      else if vertex_groups s ! active_index s \<notin> set bones then
        Inr ([(''ERROR'', ''Current vertex group not found on armature.'')], CANCELLED, s)
      else
        (let reports =
               (if armatures > 1
                then [(''WARNING'',
                  ''Multiple armatures found on object.  Operator may have unexpected results.'')]
                else []);
             bone_indexes = get_bone_indexes s bones
         in case assign_all_groups s bone_indexes of
              Inl e \<Rightarrow> Inl e
            | Inr s1 \<Rightarrow>
                (case normalize_vertices (set bone_indexes) (active_index s1) (vertices s1) of
                   Inl e \<Rightarrow> Inl e
                 | Inr verts \<Rightarrow> Inr (reports, FINISHED, s1\<lparr>vertices := verts\<rparr>))))"

text \<open>Lines 90 to 178.\<close>

definition normalize_armature ::
  "context_state \<Rightarrow> py_error + (report list \<times> status \<times> context_state)" where
  "normalize_armature s =
     (case find_bones (modifiers s) [] 0 of
        (bones, armatures) \<Rightarrow> normalize_with_bones bones armatures s)"

section \<open>Notions used by the statements\<close>

text \<open>The sum of a vertex's weights over the entries whose group is in \<open>B\<close>.\<close>

definition armature_sum :: "nat set \<Rightarrow> group_info list \<Rightarrow> real" where
  "armature_sum B gs = sum_list (map weight [e \<leftarrow> gs. group e \<in> B])"

text \<open>The sum of the clamped weights of the entries that satisfy \<open>P\<close>.\<close>

definition clamped_sum :: "(group_info \<Rightarrow> bool) \<Rightarrow> group_info list \<Rightarrow> real" where
  "clamped_sum P gs = sum_list (map (\<lambda>e. clamp (weight e)) (filter P gs))"

text \<open>The bone names of the qualifying armature modifiers, in the order of
  \<^verbatim>\<open>obj.modifiers\<close>.\<close>

definition qualifying_bones :: "modifier list \<Rightarrow> string list list" where
  "qualifying_bones ms =
     List.map_filter
       (\<lambda>m. if mod_type m = ''ARMATURE'' \<and> use_vertex_groups m then mod_object m else None) ms"

text \<open>The bones that the search of \<^const>\<open>normalize_armature\<close> ends with, and the set of
  their group indexes.\<close>

definition found_bones :: "context_state \<Rightarrow> string list" where
  "found_bones s = fst (find_bones (modifiers s) [] 0)"

definition bone_index_set :: "context_state \<Rightarrow> nat set" where
  "bone_index_set s = set (get_bone_indexes s (found_bones s))"

text \<open>The modes of a mesh object whose \<^verbatim>\<open>bpy.context.mode\<close> name \<^const>\<open>restore_mode\<close>
  turns back into the mode.\<close>

definition restorable_modes :: "string list" where
  "restorable_modes = [''OBJECT'', ''EDIT'', ''POSE'', ''SCULPT'', ''VERTEX_PAINT'',
     ''WEIGHT_PAINT'', ''TEXTURE_PAINT'']"

definition warning_report :: report where
  "warning_report = (''WARNING'',
     ''Multiple armatures found on object.  Operator may have unexpected results.'')"

section \<open>Concrete meshes\<close>

definition armature_modifier :: "string list \<Rightarrow> modifier" where
  "armature_modifier names =
     \<lparr>mod_type = ''ARMATURE'', use_vertex_groups = True, mod_object = Some names\<rparr>"

text \<open>One vertex, two bone groups, the active group \<open>A\<close> at one half and \<open>B\<close> at zero.\<close>

definition half_ctx :: context_state where
  "half_ctx =
     \<lparr>mode = ''WEIGHT_PAINT'', vertex_group_weight = 1, vertex_groups = [''A'', ''B''],
      active_index = 0,
      vertices = [\<lparr>groups = [\<lparr>group = 0, weight = 1/2\<rparr>, \<lparr>group = 1, weight = 0\<rparr>],
                   select = False\<rparr>],
      modifiers = [armature_modifier [''A'', ''B'']]\<rparr>"

text \<open>One vertex and an armature of one bone.\<close>

definition single_bone_ctx :: context_state where
  "single_bone_ctx =
     \<lparr>mode = ''WEIGHT_PAINT'', vertex_group_weight = 1, vertex_groups = [''A''],
      active_index = 0,
      vertices = [\<lparr>groups = [\<lparr>group = 0, weight = 1/2\<rparr>], select = False\<rparr>],
      modifiers = [armature_modifier [''A'']]\<rparr>"

text \<open>Two armatures with the bones \<open>A, B\<close> and \<open>A, C\<close>.\<close>

definition two_armatures_ctx :: context_state where
  "two_armatures_ctx =
     \<lparr>mode = ''WEIGHT_PAINT'', vertex_group_weight = 1, vertex_groups = [''A'', ''B'', ''C''],
      active_index = 0,
      vertices = [\<lparr>groups = [\<lparr>group = 0, weight = 1/2\<rparr>, \<lparr>group = 1, weight = 1/2\<rparr>,
                             \<lparr>group = 2, weight = 1/4\<rparr>],
                   select = False\<rparr>],
      modifiers = [armature_modifier [''A'', ''B''], armature_modifier [''A'', ''C'']]\<rparr>"

text \<open>Two vertices, the first selected and in group 0, the second in no group.\<close>

definition selected_ctx :: context_state where
  "selected_ctx =
     \<lparr>mode = ''WEIGHT_PAINT'', vertex_group_weight = 1, vertex_groups = [''A''],
      active_index = 0,
      vertices = [\<lparr>groups = [\<lparr>group = 0, weight = 1\<rparr>], select = True\<rparr>,
                  \<lparr>groups = [], select = False\<rparr>],
      modifiers = []\<rparr>"




text \<open>What \<^const>\<open>assign_all_groups\<close> does to the entries \<open>acc\<close> of one vertex whose
  entries were \<open>gs0\<close> when the missing ones were looked up.\<close>

definition add_missing :: "group_info list \<Rightarrow> nat list \<Rightarrow> group_info list \<Rightarrow> group_info list" where
  "add_missing gs0 G acc =
     fold (\<lambda>g acc. if g \<in> group ` set gs0 then acc else assign_weight acc g 0) G acc"

text \<open>The entries of a vertex that the loop collects, with their positions.\<close>

definition collected :: "nat set \<Rightarrow> group_info list \<Rightarrow> (nat \<times> group_info) list" where
  "collected B gs = filter (\<lambda>p. group (snd p) \<in> B) (enumerate 0 gs)"

text \<open>
  What the code computes for a vertex with one entry for the active group \<open>a\<close>, which
  is a bone group: the new weight of an entry \<open>e\<close> whose group is in \<open>B\<close>, branch by
  branch, and the vertex's entries afterwards.
\<close>

definition new_weight :: "nat set \<Rightarrow> nat \<Rightarrow> group_info list \<Rightarrow> group_info \<Rightarrow> real" where
  "new_weight B a gs e =
     (let total = clamped_sum (\<lambda>e. group e \<in> B) gs;
          active = clamped_sum (\<lambda>e. group e = a) gs;
          other = clamped_sum (\<lambda>e. group e \<in> B \<and> group e \<noteq> a) gs;
          count = length (filter (\<lambda>e. group e \<in> B) gs)
      in if total = 1 then clamp (weight e)
         else if active \<ge> 1 then (if group e = a then 1 else 0)
         else if other \<noteq> 0 then
           (if group e = a then clamp (weight e)
            else (1 - active) * (clamp (weight e) / other))
         else if total \<noteq> 0 \<and> count > 1 then
           (if group e = a then clamp (weight e)
            else (1 - active) * (1 / real count))
         else clamp (weight e))"

definition normalized_groups :: "nat set \<Rightarrow> nat \<Rightarrow> group_info list \<Rightarrow> group_info list" where
  "normalized_groups B a gs =
     map (\<lambda>e. if group e \<in> B then e\<lparr>weight := new_weight B a gs e\<rparr> else e) gs"

section \<open>Properties\<close>

subsection \<open>The even split when the other groups are empty\<close>

text \<open>
  C2. With the active group 0 at one half and the only other bone group at zero, the
  other group gets \<open>bias * (1 / count) = 1/4\<close>, not \<open>bias / (count - 1) = 1/2\<close>.
\<close>

theorem case_D_divides_by_count:
  "normalize_vertex {0, 1} 0
     \<lparr>groups = [\<lparr>group = 0, weight = 1/2\<rparr>, \<lparr>group = 1, weight = 0\<rparr>], select = False\<rparr>
   = Inr \<lparr>groups = [\<lparr>group = 0, weight = 1/2\<rparr>, \<lparr>group = 1, weight = 1/4\<rparr>],
          select = False\<rparr>"
  by code_simp

text \<open>
  C4. On that vertex the operator is not idempotent: the first run leaves the weights
  \<open>1/2, 1/4\<close>, and the second run turns them into \<open>1/2, 1/2\<close>.
\<close>

theorem second_run_changes_weights:
  "normalize_armature half_ctx =
     Inr ([], FINISHED,
          half_ctx\<lparr>vertices :=
            [\<lparr>groups = [\<lparr>group = 0, weight = 1/2\<rparr>, \<lparr>group = 1, weight = 1/4\<rparr>],
              select = False\<rparr>]\<rparr>)
   \<and> normalize_armature
       (half_ctx\<lparr>vertices :=
          [\<lparr>groups = [\<lparr>group = 0, weight = 1/2\<rparr>, \<lparr>group = 1, weight = 1/4\<rparr>],
            select = False\<rparr>]\<rparr>) =
     Inr ([], FINISHED,
          half_ctx\<lparr>vertices :=
            [\<lparr>groups = [\<lparr>group = 0, weight = 1/2\<rparr>, \<lparr>group = 1, weight = 1/2\<rparr>],
              select = False\<rparr>]\<rparr>)"
  by code_simp

subsection \<open>The search for the armature\<close>

lemma find_bones_one:
  "find_bones ms b (Suc 0) = (case qualifying_bones ms of [] \<Rightarrow> (b, Suc 0) | q # qs \<Rightarrow> (q, 2))"
  by (induction ms arbitrary: b) (auto simp: qualifying_bones_def split: option.splits list.splits)

lemma find_bones_zero:
  "find_bones ms b 0 =
     (case qualifying_bones ms of
        [] \<Rightarrow> (b, 0)
      | [q] \<Rightarrow> (q, Suc 0)
      | q # q2 # qs \<Rightarrow> (q2, 2))"
proof (induction ms arbitrary: b)
  case Nil
  show ?case by (simp add: qualifying_bones_def)
next
  case (Cons m ms)
  show ?case
  proof (cases "if mod_type m = ''ARMATURE'' \<and> use_vertex_groups m then mod_object m else None")
    case None
    then have "qualifying_bones (m # ms) = qualifying_bones ms"
      by (simp add: qualifying_bones_def)
    with None Cons show ?thesis by simp
  next
    case (Some names)
    then have "qualifying_bones (m # ms) = names # qualifying_bones ms"
      by (simp add: qualifying_bones_def)
    with Some show ?thesis
      by (simp add: find_bones_one split: list.splits)
  qed
qed


lemma normalize_armature_with:
  "normalize_armature s =
     normalize_with_bones (found_bones s) (snd (find_bones (modifiers s) [] 0)) s"
  by (simp add: normalize_armature_def found_bones_def split: prod.splits)

lemma cancelled_unchanged:
  "normalize_with_bones bones n s = Inr (r, CANCELLED, s') \<Longrightarrow> s' = s"
  by (auto simp: normalize_with_bones_def Let_def split: if_splits sum.splits)

subsection \<open>The fatal preconditions\<close>



subsection \<open>Ensuring membership\<close>

lemma restore_mode_context_mode:
  "mode s \<in> set restorable_modes \<Longrightarrow> restore_mode (context_mode s) s' = Inr (s'\<lparr>mode := mode s\<rparr>)"
  by (auto simp: restorable_modes_def restore_mode_def context_mode_def mode_set_def object_modes_def)

lemma mode_set_EDIT: "mode_set ''EDIT'' s = Inr (s\<lparr>mode := ''EDIT''\<rparr>)"
  by (simp add: mode_set_def object_modes_def)

lemma fold_select_vert_fields:
  "mode (fold select_vert is s) = mode s"
  "vertex_group_weight (fold select_vert is s) = vertex_group_weight s"
  "vertex_groups (fold select_vert is s) = vertex_groups s"
  "active_index (fold select_vert is s) = active_index s"
  "modifiers (fold select_vert is s) = modifiers s"
  "length (vertices (fold select_vert is s)) = length (vertices s)"
  by (induction "is" arbitrary: s; simp add: select_vert_def)+

lemma fold_select_vert_nth:
  "i < length (vertices s) \<Longrightarrow>
   vertices (fold select_vert is s) ! i =
     (if i \<in> set is then (vertices s ! i)\<lparr>select := True\<rparr> else vertices s ! i)"
proof (induction "is" arbitrary: s)
  case Nil
  show ?case by simp
next
  case (Cons a "is")
  have len: "i < length (vertices (select_vert a s))"
    using Cons.prems by (simp add: select_vert_def)
  show ?case
    using Cons.IH [OF len] Cons.prems
    by (cases "a = i") (auto simp: select_vert_def nth_list_update)
qed

lemma assign_weight_absent:
  "g \<notin> group ` set gs \<Longrightarrow> assign_weight gs g w = gs @ [\<lparr>group = g, weight = w\<rparr>]"
  by (induction gs) auto

lemma assign_weight_append:
  "g \<notin> group ` set xs \<Longrightarrow> assign_weight (xs @ ys) g w = xs @ assign_weight ys g w"
  by (induction xs) auto

lemma assign_weight_same:
  "g \<in> group ` set ys \<Longrightarrow> \<forall>e\<in>set ys. group e = g \<longrightarrow> weight e = w \<Longrightarrow> assign_weight ys g w = ys"
  by (induction ys) auto


lemma assign_group_fields:
  "mode (assign_group nf G x s) = mode s"
  "vertex_group_weight (assign_group nf G x s) = vertex_group_weight s"
  "vertex_groups (assign_group nf G x s) = vertex_groups s"
  "modifiers (assign_group nf G x s) = modifiers s"
  "length (vertices (assign_group nf G x s)) = length (vertices s)"
  by (simp_all add: assign_group_def vertex_group_assign_def select_all_DESELECT_def
      fold_select_vert_fields)

lemma fold_assign_group_fields:
  "mode (fold (assign_group nf G) xs s) = mode s"
  "vertex_group_weight (fold (assign_group nf G) xs s) = vertex_group_weight s"
  "vertex_groups (fold (assign_group nf G) xs s) = vertex_groups s"
  "modifiers (fold (assign_group nf G) xs s) = modifiers s"
  "length (vertices (fold (assign_group nf G) xs s)) = length (vertices s)"
  by (induction xs arbitrary: s; simp add: assign_group_fields)+

lemma assign_group_nth:
  assumes "i < length (vertices s)" "G ! x < length (vertex_groups s)"
  shows "vertices (assign_group nf G x s) ! i =
     (if i \<in> set (nf ! x)
      then \<lparr>groups = assign_weight (groups (vertices s ! i)) (G ! x) (vertex_group_weight s),
            select = True\<rparr>
      else \<lparr>groups = groups (vertices s ! i), select = False\<rparr>)"
proof -
  let ?s1 = "select_all_DESELECT s"
  let ?s2 = "fold select_vert (nf ! x) ?s1"
  have len1: "i < length (vertices ?s1)"
    using assms by (simp add: select_all_DESELECT_def)
  have v2: "vertices ?s2 ! i =
      (if i \<in> set (nf ! x) then \<lparr>groups = groups (vertices s ! i), select = True\<rparr>
       else \<lparr>groups = groups (vertices s ! i), select = False\<rparr>)"
    using fold_select_vert_nth [OF len1, of "nf ! x"] assms
    by (simp add: select_all_DESELECT_def)
  have len2: "i < length (vertices ?s2)"
    using len1 by (simp add: fold_select_vert_fields)
  have f2: "vertex_groups ?s2 = vertex_groups s" "vertex_group_weight ?s2 = vertex_group_weight s"
    by (simp_all add: fold_select_vert_fields select_all_DESELECT_def)
  show ?thesis
    using v2 len2 f2 assms
    by (simp add: assign_group_def vertex_group_assign_def)
qed

lemma not_found_inner:
  "length (fold (\<lambda>(x, index) nf. if c index then nf[x := nf ! x @ [vi]] else nf)
             (enumerate n G) nf) = length nf
   \<and> (\<forall>x < length nf.
        fold (\<lambda>(x, index) nf. if c index then nf[x := nf ! x @ [vi]] else nf)
          (enumerate n G) nf ! x =
        (if n \<le> x \<and> x < n + length G \<and> c (G ! (x - n)) then nf ! x @ [vi] else nf ! x))"
proof (induction G arbitrary: n nf)
  case Nil
  show ?case by simp
next
  case (Cons g G)
  let ?nf1 = "if c g then nf[n := nf ! n @ [vi]] else nf"
  have len: "length ?nf1 = length nf" by simp
  show ?case
    using Cons.IH [of "Suc n" ?nf1]
    by (auto simp: nth_list_update nth_Cons' Suc_diff_Suc not_less_eq_eq le_Suc_eq)
qed


lemma not_found_outer:
  "length (fold (\<lambda>(vi, vert) nf.
             fold (\<lambda>(x, index) nf.
                     if \<not> (\<exists>gi \<in> set (groups vert). index = group gi)
                     then nf[x := nf ! x @ [vi]] else nf)
               (enumerate 0 G) nf)
          (enumerate m verts) nf) = length nf
   \<and> (\<forall>x < length nf. x < length G \<longrightarrow>
        set (fold (\<lambda>(vi, vert) nf.
             fold (\<lambda>(x, index) nf.
                     if \<not> (\<exists>gi \<in> set (groups vert). index = group gi)
                     then nf[x := nf ! x @ [vi]] else nf)
               (enumerate 0 G) nf)
          (enumerate m verts) nf ! x) =
        set (nf ! x) \<union>
          {i. m \<le> i \<and> i < m + length verts \<and> G ! x \<notin> group ` set (groups (verts ! (i - m)))})"
proof (induction verts arbitrary: m nf)
  case Nil
  show ?case by auto
next
  case (Cons v verts)
  let ?nf1 = "fold (\<lambda>(x, index) nf.
                     if \<not> (\<exists>gi \<in> set (groups v). index = group gi)
                     then nf[x := nf ! x @ [m]] else nf)
               (enumerate 0 G) nf"
  have inner: "length ?nf1 = length nf"
    "\<And>x. x < length nf \<Longrightarrow> ?nf1 ! x =
        (if x < length G \<and> \<not> (\<exists>gi \<in> set (groups v). G ! x = group gi)
         then nf ! x @ [m] else nf ! x)"
    using not_found_inner [of "\<lambda>index. \<not> (\<exists>gi \<in> set (groups v). index = group gi)" m 0 G nf]
    by simp_all
  have IH: "length (fold (\<lambda>(vi, vert) nf.
             fold (\<lambda>(x, index) nf.
                     if \<not> (\<exists>gi \<in> set (groups vert). index = group gi)
                     then nf[x := nf ! x @ [vi]] else nf)
               (enumerate 0 G) nf)
          (enumerate (Suc m) verts) ?nf1) = length nf"
    "\<And>x. x < length nf \<Longrightarrow> x < length G \<Longrightarrow>
        set (fold (\<lambda>(vi, vert) nf.
             fold (\<lambda>(x, index) nf.
                     if \<not> (\<exists>gi \<in> set (groups vert). index = group gi)
                     then nf[x := nf ! x @ [vi]] else nf)
               (enumerate 0 G) nf)
          (enumerate (Suc m) verts) ?nf1 ! x) =
        set (?nf1 ! x) \<union>
          {i. Suc m \<le> i \<and> i < Suc m + length verts
               \<and> G ! x \<notin> group ` set (groups (verts ! (i - Suc m)))}"
    using Cons.IH [of "Suc m" ?nf1] inner(1) by simp_all
  show ?case
  proof (intro conjI allI impI)
    show "length (fold (\<lambda>(vi, vert) nf.
             fold (\<lambda>(x, index) nf.
                     if \<not> (\<exists>gi \<in> set (groups vert). index = group gi)
                     then nf[x := nf ! x @ [vi]] else nf)
               (enumerate 0 G) nf)
          (enumerate m (v # verts)) nf) = length nf"
      using IH(1) by simp
  next
    fix x assume x: "x < length nf" "x < length G"
    have split: "{i. m \<le> i \<and> i < m + length (v # verts)
                    \<and> G ! x \<notin> group ` set (groups ((v # verts) ! (i - m)))} =
          (if G ! x \<notin> group ` set (groups v) then {m} else {}) \<union>
          {i. Suc m \<le> i \<and> i < Suc m + length verts
               \<and> G ! x \<notin> group ` set (groups (verts ! (i - Suc m)))}"
      by (auto simp: nth_Cons' Suc_diff_Suc le_Suc_eq)
    show "set (fold (\<lambda>(vi, vert) nf.
             fold (\<lambda>(x, index) nf.
                     if \<not> (\<exists>gi \<in> set (groups vert). index = group gi)
                     then nf[x := nf ! x @ [vi]] else nf)
               (enumerate 0 G) nf)
          (enumerate m (v # verts)) nf ! x) =
        set (nf ! x) \<union>
          {i. m \<le> i \<and> i < m + length (v # verts)
               \<and> G ! x \<notin> group ` set (groups ((v # verts) ! (i - m)))}"
      unfolding split using IH(2) [OF x] inner(2) [OF x(1)] x
      by (auto simp: image_iff)
  qed
qed

lemma find_not_found_length: "length (find_not_found verts G) = length G"
  using not_found_outer [of G 0 verts "map (\<lambda>i. []) G"]
  by (simp add: find_not_found_def)

lemma find_not_found_set:
  "x < length G \<Longrightarrow>
   set (find_not_found verts G ! x) =
     {i. i < length verts \<and> G ! x \<notin> group ` set (groups (verts ! i))}"
  using not_found_outer [of G 0 verts "map (\<lambda>i. []) G"]
  by (simp add: find_not_found_def)

lemma add_missing_snoc:
  "add_missing gs0 (G @ [g]) acc =
     (if g \<in> group ` set gs0 then add_missing gs0 G acc
      else assign_weight (add_missing gs0 G acc) g 0)"
  by (simp add: add_missing_def)

lemma assign_loop_groups:
  assumes "n \<le> length G" "\<forall>g\<in>set G. g < length (vertex_groups s)"
    "vertex_group_weight s = 0" "i < length (vertices s)"
    "\<forall>x<length G. set (nf ! x) =
        {i. i < length (vertices s) \<and> G ! x \<notin> group ` set (groups (vertices s ! i))}"
  shows "groups (vertices (fold (assign_group nf G) [0..<n] s) ! i) =
     add_missing (groups (vertices s ! i)) (take n G) (groups (vertices s ! i))"
  using assms(1)
proof (induction n)
  case 0
  show ?case by (simp add: add_missing_def)
next
  case (Suc n)
  let ?sn = "fold (assign_group nf G) [0..<n] s"
  have n: "n < length G" using Suc.prems by simp
  have IH: "groups (vertices ?sn ! i) =
     add_missing (groups (vertices s ! i)) (take n G) (groups (vertices s ! i))"
    using Suc.IH n by simp
  have len: "i < length (vertices ?sn)"
    using assms(4) by (simp add: fold_assign_group_fields)
  have valid: "G ! n < length (vertex_groups ?sn)"
    using assms(2) n by (simp add: fold_assign_group_fields)
  have w: "vertex_group_weight ?sn = 0"
    using assms(3) by (simp add: fold_assign_group_fields)
  have mem: "i \<in> set (nf ! n) \<longleftrightarrow> G ! n \<notin> group ` set (groups (vertices s ! i))"
    using assms(5) n assms(4) by simp
  have step: "groups (vertices (assign_group nf G n ?sn) ! i) =
      (if G ! n \<in> group ` set (groups (vertices s ! i)) then groups (vertices ?sn ! i)
       else assign_weight (groups (vertices ?sn ! i)) (G ! n) 0)"
    using assign_group_nth [OF len valid, of nf] mem w by simp
  show ?case
    using step IH n
    by (simp add: take_Suc_conv_app_nth add_missing_snoc)
qed

lemma add_missing_inv:
  assumes "\<forall>z\<in>set zs. weight z = 0 \<and> group z \<notin> group ` set gs0" "distinct (map group zs)"
  shows "\<exists>zs'. add_missing gs0 G (gs0 @ zs) = gs0 @ zs'
     \<and> (\<forall>z\<in>set zs'. weight z = 0 \<and> group z \<notin> group ` set gs0)
     \<and> distinct (map group zs')
     \<and> group ` set zs' = group ` set zs \<union> (set G - group ` set gs0)"
  using assms
proof (induction G arbitrary: zs)
  case Nil
  then show ?case by (auto simp: add_missing_def)
next
  case (Cons g G)
  show ?case
  proof (cases "g \<in> group ` set gs0")
    case True
    then have "add_missing gs0 (g # G) (gs0 @ zs) = add_missing gs0 G (gs0 @ zs)"
      by (simp add: add_missing_def)
    with Cons.IH [OF Cons.prems] True show ?thesis by auto
  next
    case False
    show ?thesis
    proof (cases "g \<in> group ` set zs")
      case True
      have "assign_weight zs g 0 = zs"
        using True Cons.prems(1) by (intro assign_weight_same) auto
      then have "add_missing gs0 (g # G) (gs0 @ zs) = add_missing gs0 G (gs0 @ zs)"
        using False by (simp add: add_missing_def assign_weight_append)
      with Cons.IH [OF Cons.prems] True False show ?thesis by auto
    next
      case nz: False
      let ?zs1 = "zs @ [\<lparr>group = g, weight = 0\<rparr>]"
      have eq: "add_missing gs0 (g # G) (gs0 @ zs) = add_missing gs0 G (gs0 @ ?zs1)"
        using False nz by (simp add: add_missing_def assign_weight_append assign_weight_absent)
      have p1: "\<forall>z\<in>set ?zs1. weight z = 0 \<and> group z \<notin> group ` set gs0"
        using Cons.prems(1) False by auto
      have p2: "distinct (map group ?zs1)"
        using Cons.prems(2) nz by auto
      from Cons.IH [OF p1 p2] obtain zs' where
        "add_missing gs0 G (gs0 @ ?zs1) = gs0 @ zs'"
        "\<forall>z\<in>set zs'. weight z = 0 \<and> group z \<notin> group ` set gs0"
        "distinct (map group zs')"
        "group ` set zs' = group ` set ?zs1 \<union> (set G - group ` set gs0)"
        by blast
      with eq False show ?thesis by auto
    qed
  qed
qed

lemma add_missing_result:
  "\<exists>zs. add_missing gs0 G gs0 = gs0 @ zs
     \<and> (\<forall>z\<in>set zs. weight z = 0)
     \<and> distinct (map group zs)
     \<and> group ` set zs = set G - group ` set gs0"
  using add_missing_inv [of "[]" gs0 G] by auto

lemma assign_all_groups_result:
  assumes "mode s \<in> set restorable_modes"
  shows "assign_all_groups s G =
     Inr (s\<lparr>vertices := vertices (fold (assign_group (find_not_found (vertices s) G) G)
                    [0..<length G] (s\<lparr>mode := ''EDIT'', vertex_group_weight := 0\<rparr>))\<rparr>)"
proof -
  let ?s2 = "s\<lparr>mode := ''EDIT'', vertex_group_weight := 0\<rparr>"
  let ?s3 = "fold (assign_group (find_not_found (vertices s) G) G) [0..<length G] ?s2"
  have r: "restore_mode (context_mode s) ?s3 = Inr (?s3\<lparr>mode := mode s\<rparr>)"
    using assms by (rule restore_mode_context_mode)
  have eq: "?s3\<lparr>mode := mode s, vertex_group_weight := vertex_group_weight s,
               active_index := active_index s\<rparr> = s\<lparr>vertices := vertices ?s3\<rparr>"
    by (rule context_state.equality) (simp_all add: fold_assign_group_fields)
  show ?thesis
    using r eq by (simp add: assign_all_groups_def mode_set_EDIT Let_def)
qed

lemma assign_all_groups_vertex:
  assumes "mode s \<in> set restorable_modes" "\<forall>g\<in>set G. g < length (vertex_groups s)"
    "assign_all_groups s G = Inr s'" "i < length (vertices s)"
  shows "groups (vertices s' ! i) =
     add_missing (groups (vertices s ! i)) G (groups (vertices s ! i))"
proof -
  let ?s2 = "s\<lparr>mode := ''EDIT'', vertex_group_weight := 0\<rparr>"
  let ?nf = "find_not_found (vertices s) G"
  have s': "s' = s\<lparr>vertices := vertices (fold (assign_group ?nf G) [0..<length G] ?s2)\<rparr>"
    using assign_all_groups_result [OF assms(1), of G] assms(3) by simp
  have "groups (vertices (fold (assign_group ?nf G) [0..<length G] ?s2) ! i) =
     add_missing (groups (vertices ?s2 ! i)) (take (length G) G) (groups (vertices ?s2 ! i))"
    using assms(2,4) by (intro assign_loop_groups) (simp_all add: find_not_found_set)
  with s' show ?thesis by simp
qed

text \<open>
  C7. For group indexes that name groups of the object, \<^const>\<open>assign_all_groups\<close>
  returns, and afterwards every vertex has an entry for every index of \<open>G\<close>. The
  vertex's old entries are still there, unchanged and in their old places, followed by
  the new entries \<open>zs\<close>: one for each index of \<open>G\<close> that had no entry, each at weight \<open>0\<close>.
\<close>

theorem ensure_membership_complete:
  assumes "mode s \<in> set restorable_modes" "\<forall>g\<in>set G. g < length (vertex_groups s)"
  shows "\<exists>s'. assign_all_groups s G = Inr s'
     \<and> length (vertices s') = length (vertices s)
     \<and> (\<forall>i<length (vertices s).
          (\<forall>g\<in>set G. g \<in> group ` set (groups (vertices s' ! i)))
          \<and> (\<exists>zs. groups (vertices s' ! i) = groups (vertices s ! i) @ zs
                \<and> (\<forall>z\<in>set zs. weight z = 0)
                \<and> distinct (map group zs)
                \<and> group ` set zs = set G - group ` set (groups (vertices s ! i))))"
proof -
  obtain s' where s': "assign_all_groups s G = Inr s'"
    using assign_all_groups_result [OF assms(1)] by blast
  have len: "length (vertices s') = length (vertices s)"
    using s' assign_all_groups_result [OF assms(1), of G]
    by (auto simp: fold_assign_group_fields)
  have each: "(\<forall>g\<in>set G. g \<in> group ` set (groups (vertices s' ! i)))
          \<and> (\<exists>zs. groups (vertices s' ! i) = groups (vertices s ! i) @ zs
                \<and> (\<forall>z\<in>set zs. weight z = 0)
                \<and> distinct (map group zs)
                \<and> group ` set zs = set G - group ` set (groups (vertices s ! i)))"
    if i: "i < length (vertices s)" for i
  proof -
    let ?gs0 = "groups (vertices s ! i)"
    have g: "groups (vertices s' ! i) = add_missing ?gs0 G ?gs0"
      using assms s' i by (rule assign_all_groups_vertex)
    obtain zs where zs: "add_missing ?gs0 G ?gs0 = ?gs0 @ zs" "\<forall>z\<in>set zs. weight z = 0"
      "distinct (map group zs)" "group ` set zs = set G - group ` set ?gs0"
      using add_missing_result [of ?gs0 G] by blast
    have "\<forall>g\<in>set G. g \<in> group ` set (?gs0 @ zs)"
      using zs(4) by (auto simp: image_Un)
    with g zs show ?thesis by auto
  qed
  from s' len each show ?thesis by blast
qed

theorem ensure_membership_complete_witness:
  "mode selected_ctx \<in> set restorable_modes
   \<and> (0::nat) < length (vertex_groups selected_ctx)
   \<and> (\<exists>s' zs. assign_all_groups selected_ctx [0] = Inr s'
        \<and> length (vertices s') = 2
        \<and> 0 \<in> group ` set (groups (vertices s' ! 1))
        \<and> groups (vertices s' ! 1) = [] @ zs
        \<and> group ` set zs = {0})"
proof -
  have m: "mode selected_ctx \<in> set restorable_modes"
    by (simp add: selected_ctx_def restorable_modes_def)
  have v: "\<forall>g\<in>set [0::nat]. g < length (vertex_groups selected_ctx)"
    by (simp add: selected_ctx_def)
  have i: "(1::nat) < length (vertices selected_ctx)"
    by (simp add: selected_ctx_def)
  have g: "groups (vertices selected_ctx ! 1) = []" "length (vertices selected_ctx) = 2"
    by (simp_all add: selected_ctx_def)
  from ensure_membership_complete [OF m v] obtain s' where
    s': "assign_all_groups selected_ctx [0] = Inr s'"
      "length (vertices s') = length (vertices selected_ctx)"
    and all: "\<forall>i<length (vertices selected_ctx).
          (\<forall>g\<in>set [0::nat]. g \<in> group ` set (groups (vertices s' ! i)))
          \<and> (\<exists>zs. groups (vertices s' ! i) = groups (vertices selected_ctx ! i) @ zs
                \<and> (\<forall>z\<in>set zs. weight z = 0)
                \<and> distinct (map group zs)
                \<and> group ` set zs = set [0] - group ` set (groups (vertices selected_ctx ! i)))"
    by blast
  from all i have
    "(\<forall>g\<in>set [0::nat]. g \<in> group ` set (groups (vertices s' ! 1)))
          \<and> (\<exists>zs. groups (vertices s' ! 1) = groups (vertices selected_ctx ! 1) @ zs
                \<and> (\<forall>z\<in>set zs. weight z = 0)
                \<and> distinct (map group zs)
                \<and> group ` set zs = set [0] - group ` set (groups (vertices selected_ctx ! 1)))"
    by blast
  then have a: "0 \<in> group ` set (groups (vertices s' ! 1))"
    and "\<exists>zs. groups (vertices s' ! 1) = groups (vertices selected_ctx ! 1) @ zs
           \<and> group ` set zs = set [0] - group ` set (groups (vertices selected_ctx ! 1))"
    by auto
  then obtain zs where
    b: "groups (vertices s' ! 1) = groups (vertices selected_ctx ! 1) @ zs"
    and c: "group ` set zs = set [0] - group ` set (groups (vertices selected_ctx ! 1))"
    by blast
  have b': "groups (vertices s' ! 1) = [] @ zs" using b g(1) by simp
  have c': "group ` set zs = {0}" using c g(1) by simp
  have l: "length (vertices s') = 2" using s'(2) g(2) by simp
  have v': "(0::nat) < length (vertex_groups selected_ctx)" using v by simp
  show ?thesis
    using m v' s'(1) l a b' c' by blast
qed

text \<open>
  C9, as the code has it. \<^const>\<open>assign_all_groups\<close> gives back the mode, the tool
  settings' weight and the active index that it found (and does not touch the group
  table or the modifiers). The selection is not among the things it saves.
\<close>

theorem transient_state_restored:
  assumes "mode s \<in> set restorable_modes"
  shows "\<exists>s'. assign_all_groups s G = Inr s'
     \<and> active_index s' = active_index s
     \<and> mode s' = mode s
     \<and> vertex_group_weight s' = vertex_group_weight s
     \<and> vertex_groups s' = vertex_groups s
     \<and> modifiers s' = modifiers s"
  using assign_all_groups_result [OF assms, of G] by simp

theorem transient_state_restored_witness:
  "mode selected_ctx \<in> set restorable_modes
   \<and> (\<exists>s'. assign_all_groups selected_ctx [0] = Inr s'
        \<and> active_index s' = 0
        \<and> mode s' = ''WEIGHT_PAINT''
        \<and> vertex_group_weight s' = 1
        \<and> vertex_groups s' = [''A'']
        \<and> modifiers s' = [])"
proof -
  have m: "mode selected_ctx \<in> set restorable_modes"
    by (simp add: selected_ctx_def restorable_modes_def)
  show ?thesis
    using m transient_state_restored [OF m, of "[0]"]
    by (simp add: selected_ctx_def)
qed

text \<open>
  C9, as stated, fails on the selection: the vertex that was selected comes back
  deselected, and the vertex that was added to group \<open>0\<close> comes back selected.
\<close>

theorem selection_not_restored:
  "assign_all_groups selected_ctx [0] =
     Inr (selected_ctx\<lparr>vertices :=
            [\<lparr>groups = [\<lparr>group = 0, weight = 1\<rparr>], select = False\<rparr>,
             \<lparr>groups = [\<lparr>group = 0, weight = 0\<rparr>], select = True\<rparr>]\<rparr>)
   \<and> map select (vertices selected_ctx) = [True, False]"
  by code_simp

subsection \<open>The per-vertex loops in closed form\<close>

lemma gather_fold_fields:
  "indexes (fold (gather_step B a) ps st) =
     indexes st @ map fst (filter (\<lambda>p. group (snd p) \<in> B) ps)"
  "weights (fold (gather_step B a) ps st) =
     weights st @ map (\<lambda>p. clamp (weight (snd p))) (filter (\<lambda>p. group (snd p) \<in> B) ps)"
  "sum_w (fold (gather_step B a) ps st) =
     sum_w st + sum_list (map (\<lambda>p. clamp (weight (snd p))) (filter (\<lambda>p. group (snd p) \<in> B) ps))"
  "sum_other (fold (gather_step B a) ps st) =
     sum_other st + sum_list (map (\<lambda>p. clamp (weight (snd p)))
        (filter (\<lambda>p. group (snd p) \<in> B \<and> group (snd p) \<noteq> a) ps))"
  "g_groups (fold (gather_step B a) ps st) =
     fold (\<lambda>p gs. set_weight gs (fst p) (clamp (weight (snd p))))
       (filter (\<lambda>p. group (snd p) \<in> B) ps) (g_groups st)"
  by (induction ps arbitrary: st; simp add: gather_step_def Let_def split_def)+

lemma gather_active_none:
  "\<forall>p\<in>set ps. group (snd p) \<in> B \<longrightarrow> group (snd p) \<noteq> a \<Longrightarrow>
   active_group (fold (gather_step B a) ps st) = active_group st"
  by (induction ps arbitrary: st) (auto simp: gather_step_def Let_def split_def)

lemma gather_active_some:
  "\<exists>p\<in>set ps. group (snd p) \<in> B \<and> group (snd p) = a \<Longrightarrow>
   \<exists>p\<in>set ps. group (snd p) \<in> B \<and> group (snd p) = a
      \<and> active_group (fold (gather_step B a) ps st) = int (fst p)"
proof (induction ps arbitrary: st)
  case Nil
  then show ?case by simp
next
  case (Cons p ps)
  show ?case
  proof (cases "\<exists>q\<in>set ps. group (snd q) \<in> B \<and> group (snd q) = a")
    case True
    from Cons.IH [OF True, of "gather_step B a p st"] show ?thesis by auto
  next
    case False
    then have none: "\<forall>q\<in>set ps. group (snd q) \<in> B \<longrightarrow> group (snd q) \<noteq> a" by blast
    from False Cons.prems have p: "group (snd p) \<in> B" "group (snd p) = a" by auto
    have "active_group (fold (gather_step B a) (p # ps) st) = active_group (gather_step B a p st)"
      using gather_active_none [OF none] by simp
    also have "\<dots> = int (fst p)"
      using p by (simp add: gather_step_def Let_def split_def)
    finally show ?thesis using p by auto
  qed
qed

lemma fold_enumerate_nth:
  "fold (\<lambda>(x, w). H x w) (enumerate 0 ws) = fold (\<lambda>x. H x (ws ! x)) [0..<length ws]"
proof -
  have "enumerate 0 ws = map (\<lambda>x. (x, ws ! x)) [0..<length ws]"
    by (rule nth_equalityI) (simp_all add: nth_enumerate_eq)
  then show ?thesis by (simp add: fold_map comp_def)
qed

lemma fold_upt_nth:
  assumes "\<And>x. x < length E \<Longrightarrow> H x = G (E ! x)"
  shows "fold H [0..<length E] l = fold G E l"
proof -
  have "fold H [0..<length E] l = fold (\<lambda>x. G (E ! x)) [0..<length E] l"
    using assms by (intro fold_cong) auto
  also have "\<dots> = fold G (map ((!) E) [0..<length E]) l"
    by (simp add: fold_map comp_def)
  also have "\<dots> = fold G E l" by (simp add: map_nth)
  finally show ?thesis .
qed

lemma fold_set_weight_nth:
  assumes "set E \<subseteq> set (enumerate 0 gs)" "length gs1 = length gs"
  shows "length (fold (\<lambda>p l. if c p then set_weight l (fst p) (val p) else l) E gs1) = length gs
    \<and> (\<forall>j<length gs.
         fold (\<lambda>p l. if c p then set_weight l (fst p) (val p) else l) E gs1 ! j =
         (if (j, gs ! j) \<in> set E \<and> c (j, gs ! j)
          then (gs1 ! j)\<lparr>weight := val (j, gs ! j)\<rparr> else gs1 ! j))"
  using assms
proof (induction E arbitrary: gs1)
  case Nil
  then show ?case by simp
next
  case (Cons p E)
  let ?gs1' = "if c p then set_weight gs1 (fst p) (val p) else gs1"
  have p: "fst p < length gs" "snd p = gs ! fst p"
    using Cons.prems(1) by (auto simp: in_set_enumerate_eq)
  then have pp: "p = (fst p, gs ! fst p)" by (metis prod.collapse)
  have len: "length ?gs1' = length gs"
    using Cons.prems(2) by (simp add: set_weight_def)
  have sub: "set E \<subseteq> set (enumerate 0 gs)" using Cons.prems(1) by simp
  note IH = Cons.IH [OF sub len]
  show ?case
  proof (intro conjI allI impI)
    show "length (fold (\<lambda>p l. if c p then set_weight l (fst p) (val p) else l) (p # E) gs1)
        = length gs"
      using IH by simp
  next
    fix j assume j: "j < length gs"
    have "fold (\<lambda>p l. if c p then set_weight l (fst p) (val p) else l) (p # E) gs1 ! j =
        (if (j, gs ! j) \<in> set E \<and> c (j, gs ! j)
          then (?gs1' ! j)\<lparr>weight := val (j, gs ! j)\<rparr> else ?gs1' ! j)"
      using IH j by simp
    also have "\<dots> = (if (j, gs ! j) \<in> set (p # E) \<and> c (j, gs ! j)
          then (gs1 ! j)\<lparr>weight := val (j, gs ! j)\<rparr> else gs1 ! j)"
    proof (cases "j = fst p")
      case True
      then have "p = (j, gs ! j)" using pp by simp
      then show ?thesis
        using j Cons.prems(2) by (auto simp: set_weight_def)
    next
      case False
      then have "p \<noteq> (j, gs ! j)" by auto
      with False show ?thesis
        using j Cons.prems(2) by (auto simp: set_weight_def)
    qed
    finally show "fold (\<lambda>p l. if c p then set_weight l (fst p) (val p) else l) (p # E) gs1 ! j =
        (if (j, gs ! j) \<in> set (p # E) \<and> c (j, gs ! j)
          then (gs1 ! j)\<lparr>weight := val (j, gs ! j)\<rparr> else gs1 ! j)" .
  qed
qed

lemma index_of_mem:
  "v \<in> set xs \<Longrightarrow> \<exists>k<length xs. index_of xs v = Inr k \<and> xs ! k = v"
  by (induction xs) auto

lemma index_of_absent: "v \<notin> set xs \<Longrightarrow> index_of xs v = Inl ValueError"
  by (induction xs) auto


lemma collected_subset: "set (collected B gs) \<subseteq> set (enumerate 0 gs)"
  by (auto simp: collected_def)

lemma collected_mem:
  "(j, e) \<in> set (collected B gs) \<longleftrightarrow> j < length gs \<and> e = gs ! j \<and> group (gs ! j) \<in> B"
  by (auto simp: collected_def in_set_enumerate_eq)

lemma map_snd_filter_enumerate:
  "map (\<lambda>p. f (snd p)) (filter (\<lambda>p. P (snd p)) (enumerate 0 gs)) = map f (filter P gs)"
proof -
  have "map f (filter P gs) = map f (filter P (map snd (enumerate 0 gs)))" by simp
  also have "\<dots> = map (\<lambda>p. f (snd p)) (filter (\<lambda>p. P (snd p)) (enumerate 0 gs))"
    unfolding filter_map by (simp add: comp_def)
  finally show ?thesis by simp
qed

lemma gather_indexes: "indexes (gather B a gs) = map fst (collected B gs)"
  by (simp add: gather_def gather_fold_fields collected_def)

lemma gather_weights:
  "weights (gather B a gs) = map (\<lambda>p. clamp (weight (snd p))) (collected B gs)"
  by (simp add: gather_def gather_fold_fields collected_def)

lemma gather_length_weights:
  "length (weights (gather B a gs)) = length (filter (\<lambda>e. group e \<in> B) gs)"
proof -
  have "length (weights (gather B a gs)) =
      length (map (\<lambda>p. clamp (weight (snd p))) (filter (\<lambda>p. group (snd p) \<in> B) (enumerate 0 gs)))"
    by (simp add: gather_weights collected_def)
  also have "\<dots> = length (map (\<lambda>e. clamp (weight e)) (filter (\<lambda>e. group e \<in> B) gs))"
    using map_snd_filter_enumerate [of "\<lambda>e. clamp (weight e)" "\<lambda>e. group e \<in> B" gs]
    by simp
  finally show ?thesis by simp
qed

lemma gather_sum_w: "sum_w (gather B a gs) = clamped_sum (\<lambda>e. group e \<in> B) gs"
  using map_snd_filter_enumerate [of "\<lambda>e. clamp (weight e)" "\<lambda>e. group e \<in> B" gs]
  by (simp add: gather_def gather_fold_fields clamped_sum_def)

lemma gather_sum_other:
  "sum_other (gather B a gs) = clamped_sum (\<lambda>e. group e \<in> B \<and> group e \<noteq> a) gs"
  using map_snd_filter_enumerate
    [of "\<lambda>e. clamp (weight e)" "\<lambda>e. group e \<in> B \<and> group e \<noteq> a" gs]
  by (simp add: gather_def gather_fold_fields clamped_sum_def)

lemma gather_g_groups:
  "length (g_groups (gather B a gs)) = length gs"
  "j < length gs \<Longrightarrow> g_groups (gather B a gs) ! j =
     (if group (gs ! j) \<in> B then (gs ! j)\<lparr>weight := clamp (weight (gs ! j))\<rparr> else gs ! j)"
proof -
  have eq: "g_groups (gather B a gs) =
      fold (\<lambda>p l. if True then set_weight l (fst p) (clamp (weight (snd p))) else l)
        (collected B gs) gs"
    by (simp add: gather_def gather_fold_fields collected_def)
  note n = fold_set_weight_nth [OF collected_subset [of B gs], of gs "\<lambda>p. True"
        "\<lambda>p. clamp (weight (snd p))"]
  show "length (g_groups (gather B a gs)) = length gs"
    using n eq by simp
  show "g_groups (gather B a gs) ! j =
     (if group (gs ! j) \<in> B then (gs ! j)\<lparr>weight := clamp (weight (gs ! j))\<rparr> else gs ! j)"
    if "j < length gs"
    using n eq that by (simp add: collected_mem)
qed

lemma loop_over_collected:
  assumes "idx = map fst E" "ws = map h E"
  shows "fold (\<lambda>(x, w). K (idx ! x) w) (enumerate 0 ws) l = fold (\<lambda>p. K (fst p) (h p)) E l"
proof -
  have "fold (\<lambda>(x, w). K (idx ! x) w) (enumerate 0 ws) l =
      fold (\<lambda>x. K (idx ! x) (ws ! x)) [0..<length ws] l"
    by (simp add: fold_enumerate_nth)
  also have "\<dots> = fold (\<lambda>x. K (idx ! x) (ws ! x)) [0..<length E] l"
    using assms by simp
  also have "\<dots> = fold (\<lambda>p. K (fst p) (h p)) E l"
    by (rule fold_upt_nth) (simp add: assms)
  finally show ?thesis .
qed

lemma loop_over_indexes:
  assumes "idx = map fst E" "length ws = length E"
  shows "fold (\<lambda>x. K (idx ! x)) [0..<length ws] l = fold (\<lambda>p. K (fst p)) E l"
proof -
  have "fold (\<lambda>x. K (idx ! x)) [0..<length ws] l = fold (\<lambda>x. K (idx ! x)) [0..<length E] l"
    using assms by simp
  also have "\<dots> = fold (\<lambda>p. K (fst p)) E l"
    by (rule fold_upt_nth) (simp add: assms)
  finally show ?thesis .
qed

lemma gather_loop_cond:
  fixes c :: "nat \<Rightarrow> bool" and f :: "real \<Rightarrow> real"
  defines "L \<equiv> \<lambda>B a gs c f.
     fold (\<lambda>(x, w) l. if c (indexes (gather B a gs) ! x)
                        then set_weight l (indexes (gather B a gs) ! x) (f w) else l)
       (enumerate 0 (weights (gather B a gs))) (g_groups (gather B a gs))"
  shows "length (L B a gs c f) = length gs"
    and "j < length gs \<Longrightarrow> L B a gs c f ! j =
       (if group (gs ! j) \<in> B
        then (gs ! j)\<lparr>weight := if c j then f (clamp (weight (gs ! j)))
                                   else clamp (weight (gs ! j))\<rparr>
        else gs ! j)"
proof -
  let ?st = "gather B a gs"
  let ?E = "collected B gs"
  have conv: "L B a gs c f =
      fold (\<lambda>p l. if c (fst p) then set_weight l (fst p) (f (clamp (weight (snd p)))) else l)
        ?E (g_groups ?st)"
    unfolding L_def
    using loop_over_collected [OF gather_indexes gather_weights,
        where K = "\<lambda>i w l. if c i then set_weight l i (f w) else l"]
    by simp
  note n = fold_set_weight_nth [OF collected_subset [of B gs] gather_g_groups(1) [of B a gs],
      of "\<lambda>p. c (fst p)" "\<lambda>p. f (clamp (weight (snd p)))"]
  show "length (L B a gs c f) = length gs" using n conv by simp
  show "L B a gs c f ! j =
       (if group (gs ! j) \<in> B
        then (gs ! j)\<lparr>weight := if c j then f (clamp (weight (gs ! j)))
                                   else clamp (weight (gs ! j))\<rparr>
        else gs ! j)" if "j < length gs"
    using n conv that by (simp add: collected_mem gather_g_groups(2))
qed

lemma gather_loop_all:
  fixes f :: "real \<Rightarrow> real"
  defines "L \<equiv> \<lambda>B a gs f.
     fold (\<lambda>(x, w) l. set_weight l (indexes (gather B a gs) ! x) (f w))
       (enumerate 0 (weights (gather B a gs))) (g_groups (gather B a gs))"
  shows "length (L B a gs f) = length gs"
    and "j < length gs \<Longrightarrow> L B a gs f ! j =
       (if group (gs ! j) \<in> B then (gs ! j)\<lparr>weight := f (clamp (weight (gs ! j)))\<rparr>
        else gs ! j)"
  using gather_loop_cond [where B = B and a = a and gs = gs and c = "\<lambda>i. True" and f = f]
  unfolding L_def by simp_all

lemma gather_loop_range:
  defines "L \<equiv> \<lambda>B a gs c w.
     fold (\<lambda>x l. if c (indexes (gather B a gs) ! x)
                  then set_weight l (indexes (gather B a gs) ! x) w else l)
       [0..<length (weights (gather B a gs))] (g_groups (gather B a gs))"
  shows "length (L B a gs c w) = length gs"
    and "j < length gs \<Longrightarrow> L B a gs c w ! j =
       (if group (gs ! j) \<in> B
        then (gs ! j)\<lparr>weight := if c j then w else clamp (weight (gs ! j))\<rparr>
        else gs ! j)"
proof -
  let ?st = "gather B a gs"
  let ?E = "collected B gs"
  have len: "length (weights ?st) = length ?E" by (simp add: gather_weights)
  have conv: "L B a gs c w =
      fold (\<lambda>p l. if c (fst p) then set_weight l (fst p) w else l) ?E (g_groups ?st)"
    unfolding L_def
    using loop_over_indexes [OF gather_indexes len,
        where K = "\<lambda>i l. if c i then set_weight l i w else l"]
    by simp
  note n = fold_set_weight_nth [OF collected_subset [of B gs] gather_g_groups(1) [of B a gs],
      of "\<lambda>p. c (fst p)" "\<lambda>p. w"]
  show "length (L B a gs c w) = length gs" using n conv by simp
  show "L B a gs c w ! j =
       (if group (gs ! j) \<in> B
        then (gs ! j)\<lparr>weight := if c j then w else clamp (weight (gs ! j))\<rparr>
        else gs ! j)" if "j < length gs"
    using n conv that by (simp add: collected_mem gather_g_groups(2))
qed


lemma index_of_Inr: "index_of xs v = Inr k \<Longrightarrow> k < length xs \<and> xs ! k = v"
  using index_of_mem [of v xs] index_of_absent [of v xs] by (cases "v \<in> set xs") auto

lemma gather_active_absent:
  "\<forall>e\<in>set gs. group e \<in> B \<longrightarrow> group e \<noteq> a \<Longrightarrow> active_group (gather B a gs) = - 1"
proof -
  assume h: "\<forall>e\<in>set gs. group e \<in> B \<longrightarrow> group e \<noteq> a"
  have "\<forall>p\<in>set (enumerate 0 gs). group (snd p) \<in> B \<longrightarrow> group (snd p) \<noteq> a"
  proof
    fix p assume "p \<in> set (enumerate 0 gs)"
    then have "fst p < length gs" "gs ! fst p = snd p"
      by (auto simp: in_set_enumerate_eq)
    then have "snd p \<in> set gs" by (metis nth_mem)
    with h show "group (snd p) \<in> B \<longrightarrow> group (snd p) \<noteq> a" by blast
  qed
  from gather_active_none [OF this] show ?thesis by (simp add: gather_def)
qed

lemma gather_active_present:
  assumes "a \<in> B" "a \<in> group ` set gs"
  shows "\<exists>k<length gs. group (gs ! k) = a \<and> active_group (gather B a gs) = int k"
proof -
  from assms(2) obtain k where k: "k < length gs" "group (gs ! k) = a"
    by (auto simp: in_set_conv_nth)
  then have "(k, gs ! k) \<in> set (enumerate 0 gs)"
    by (simp add: in_set_enumerate_eq)
  with k assms(1) have "\<exists>p\<in>set (enumerate 0 gs). group (snd p) \<in> B \<and> group (snd p) = a"
    by force
  from gather_active_some [OF this] obtain p where
    p: "p \<in> set (enumerate 0 gs)" "group (snd p) = a"
      "active_group (gather B a gs) = int (fst p)"
    unfolding gather_def by blast
  from p(1) have "fst p < length gs" "snd p = gs ! fst p"
    by (auto simp: in_set_enumerate_eq)
  with p show ?thesis by auto
qed

lemma gather_index_of_active:
  assumes "index_of (map int (indexes (gather B a gs))) v = Inr pos"
  shows "\<exists>k<length gs. v = int k \<and> group (gs ! k) \<in> B
           \<and> weights (gather B a gs) ! pos = clamp (weight (gs ! k))"
proof -
  let ?E = "collected B gs"
  from index_of_Inr [OF assms] have pos0: "pos < length ?E"
      "map int (map fst ?E) ! pos = v"
    by (simp_all add: gather_indexes)
  then have pos: "pos < length ?E" "int (fst (?E ! pos)) = v"
    by (simp_all del: map_map)
  have "?E ! pos \<in> set ?E" using pos(1) by simp
  then have "(fst (?E ! pos), snd (?E ! pos)) \<in> set ?E" by simp
  then have m: "fst (?E ! pos) < length gs" "snd (?E ! pos) = gs ! fst (?E ! pos)"
    "group (gs ! fst (?E ! pos)) \<in> B"
    unfolding collected_mem by auto
  have "weights (gather B a gs) ! pos = clamp (weight (snd (?E ! pos)))"
    using pos(1) by (simp add: gather_weights)
  with m pos(2) show ?thesis by auto
qed

lemma set_weight_nth:
  "length (set_weight l i w) = length l"
  "j < length l \<Longrightarrow> set_weight l i w ! j = (if i = j then (l ! j)\<lparr>weight := w\<rparr> else l ! j)"
  by (simp_all add: set_weight_def nth_list_update)

lemma apply_normalization_cases:
  assumes "apply_normalization st = Inr gs'"
  shows "gs' = g_groups st
    \<or> gs' = fold (\<lambda>(x, w) l. if True then set_weight l (indexes st ! x) (w / sum_other st) else l)
               (enumerate 0 (weights st)) (g_groups st)
    \<or> (\<exists>pos. index_of (map int (indexes st)) (active_group st) = Inr pos
          \<and> gs' = set_weight
                (fold (\<lambda>(x, w) l. if True then set_weight l (indexes st ! x) 0 else l)
                   (enumerate 0 (weights st)) (g_groups st))
                (nat (active_group st)) 1)
    \<or> (\<exists>bias. gs' = fold (\<lambda>(x, w) l. if int (indexes st ! x) \<noteq> active_group st
                        then set_weight l (indexes st ! x) (bias * (w / sum_other st)) else l)
               (enumerate 0 (weights st)) (g_groups st))
    \<or> (\<exists>w. gs' = fold (\<lambda>x l. if int (indexes st ! x) \<noteq> active_group st
                        then set_weight l (indexes st ! x) w else l)
               [0..<length (weights st)] (g_groups st))"
  using assms
  by (auto simp: apply_normalization_def Let_def split: if_splits sum.splits)

lemma apply_normalization_frame:
  assumes "apply_normalization (gather B a gs) = Inr gs'"
  shows "length gs' = length gs \<and>
    (\<forall>j<length gs. group (gs' ! j) = group (gs ! j)
        \<and> (group (gs ! j) \<notin> B \<longrightarrow> gs' ! j = gs ! j))"
proof -
  let ?st = "gather B a gs"
  from apply_normalization_cases [OF assms]
  consider (same) "gs' = g_groups ?st"
    | (A) "gs' = fold (\<lambda>(x, w) l. if True then set_weight l (indexes ?st ! x) (w / sum_other ?st) else l)
               (enumerate 0 (weights ?st)) (g_groups ?st)"
    | (B) pos where "index_of (map int (indexes ?st)) (active_group ?st) = Inr pos"
        "gs' = set_weight
                (fold (\<lambda>(x, w) l. if True then set_weight l (indexes ?st ! x) 0 else l)
                   (enumerate 0 (weights ?st)) (g_groups ?st))
                (nat (active_group ?st)) 1"
    | (C) bias where "gs' = fold (\<lambda>(x, w) l. if int (indexes ?st ! x) \<noteq> active_group ?st
                        then set_weight l (indexes ?st ! x) (bias * (w / sum_other ?st)) else l)
               (enumerate 0 (weights ?st)) (g_groups ?st)"
    | (D) w where "gs' = fold (\<lambda>x l. if int (indexes ?st ! x) \<noteq> active_group ?st
                        then set_weight l (indexes ?st ! x) w else l)
               [0..<length (weights ?st)] (g_groups ?st)"
    by blast
  then show ?thesis
  proof cases
    case same
    then show ?thesis by (simp add: gather_g_groups)
  next
    case A
    then show ?thesis
      using gather_loop_cond [where B = B and a = a and gs = gs and c = "\<lambda>i. True"
          and f = "\<lambda>w. w / sum_other ?st"]
      by simp
  next
    case B
    let ?l0 = "fold (\<lambda>(x, w) l. if True then set_weight l (indexes ?st ! x) 0 else l)
                   (enumerate 0 (weights ?st)) (g_groups ?st)"
    note l0 = gather_loop_cond [where B = B and a = a and gs = gs and c = "\<lambda>i. True"
          and f = "\<lambda>w. 0"]
    from gather_index_of_active [OF B(1)] obtain k where
      k: "k < length gs" "active_group ?st = int k" "group (gs ! k) \<in> B" by blast
    have "length gs' = length gs" using B(2) l0(1) by (simp add: set_weight_nth)
    moreover have "group (gs' ! j) = group (gs ! j)
        \<and> (group (gs ! j) \<notin> B \<longrightarrow> gs' ! j = gs ! j)" if "j < length gs" for j
      using that B(2) l0(1) l0(2) [OF that] k by (auto simp: set_weight_nth)
    ultimately show ?thesis by blast
  next
    case C
    then show ?thesis
      using gather_loop_cond [where B = B and a = a and gs = gs
          and c = "\<lambda>i. int i \<noteq> active_group ?st"
          and f = "\<lambda>w. bias * (w / sum_other ?st)"]
      by simp
  next
    case D
    then show ?thesis
      using gather_loop_range [where B = B and a = a and gs = gs
          and c = "\<lambda>i. int i \<noteq> active_group ?st" and w = w]
      by simp
  qed
qed

lemma filter_group_single:
  "distinct (map group gs) \<Longrightarrow> e \<in> set gs \<Longrightarrow> filter (\<lambda>x. group x = group e) gs = [e]"
proof (induction gs)
  case Nil
  then show ?case by simp
next
  case (Cons x xs)
  show ?case
  proof (cases "x = e")
    case True
    have "filter (\<lambda>y. group y = group e) xs = []"
      using Cons.prems(1) True by (force simp: filter_empty_conv image_iff)
    with True show ?thesis by simp
  next
    case False
    then have e: "e \<in> set xs" using Cons.prems(2) by simp
    then have "group x \<noteq> group e" using Cons.prems(1) by auto
    with Cons.IH e Cons.prems(1) show ?thesis by simp
  qed
qed

lemma apply_normalization_closed_form:
  assumes "distinct (map group gs)" "a \<in> B" "a \<in> group ` set gs"
  shows "apply_normalization (gather B a gs) = Inr (normalized_groups B a gs)"
proof -
  let ?st = "gather B a gs"
  let ?S = "clamped_sum (\<lambda>e. group e \<in> B) gs"
  let ?SO = "clamped_sum (\<lambda>e. group e \<in> B \<and> group e \<noteq> a) gs"
  let ?n = "length (filter (\<lambda>e. group e \<in> B) gs)"
  from gather_active_present [OF assms(2,3)] obtain k where
    k: "k < length gs" "group (gs ! k) = a" "active_group ?st = int k" by blast
  let ?A = "clamp (weight (gs ! k))"
  have A: "clamped_sum (\<lambda>e. group e = a) gs = ?A"
    using filter_group_single [OF assms(1), of "gs ! k"] k by (simp add: clamped_sum_def)
  have uniq: "group (gs ! j) = a \<longleftrightarrow> j = k" if "j < length gs" for j
    using assms(1) k that nth_eq_iff_index_eq [of "map group gs" j k] by auto
  have "(k, gs ! k) \<in> set (collected B gs)"
    using k assms(2) by (simp add: collected_mem)
  then have "k \<in> fst ` set (collected B gs)" by force
  then have "int k \<in> set (map int (indexes ?st))" by (auto simp: gather_indexes)
  from index_of_mem [OF this] obtain pos where
    pos: "index_of (map int (indexes ?st)) (int k) = Inr pos" by blast
  from gather_index_of_active [OF pos] have wpos: "weights ?st ! pos = ?A" by auto
  have wk: "weight (g_groups ?st ! k) = ?A"
    using gather_g_groups(2) [OF k(1), of B a] k(2) assms(2) by simp
  let ?ag = "active_group ?st"
  let ?bias = "1 - weight (g_groups ?st ! nat ?ag)"
  let ?zero = "fold (\<lambda>(x, w) gs. set_weight gs (indexes ?st ! x) 0)
                   (enumerate 0 (weights ?st)) (g_groups ?st)"
  let ?C = "fold (\<lambda>(x, w) gs. if int (indexes ?st ! x) \<noteq> ?ag
                        then set_weight gs (indexes ?st ! x) (?bias * (w / sum_other ?st))
                        else gs)
               (enumerate 0 (weights ?st)) (g_groups ?st)"
  let ?D = "fold (\<lambda>x gs. if int (indexes ?st ! x) \<noteq> ?ag
                        then set_weight gs (indexes ?st ! x)
                               (?bias * (1 / real (length (weights ?st))))
                        else gs)
               [0..<length (weights ?st)] (g_groups ?st)"
  have ag: "?ag \<noteq> - 1" using k(3) by simp
  have pos': "index_of (map int (indexes ?st)) ?ag = Inr pos" using pos k(3) by simp
  have unfold: "apply_normalization ?st =
     (if sum_w ?st \<noteq> 1 then
        if weights ?st ! pos \<ge> 1 then Inr (set_weight ?zero (nat ?ag) 1)
        else if sum_other ?st \<noteq> 0 then Inr ?C
        else if sum_w ?st \<noteq> 0 \<and> length (weights ?st) > 1 then Inr ?D
        else Inr (g_groups ?st)
      else Inr (g_groups ?st))"
    unfolding apply_normalization_def Let_def pos' using ag by simp
  note zero = gather_loop_all [where B = B and a = a and gs = gs and f = "\<lambda>w. 0"]
  note C = gather_loop_cond [where B = B and a = a and gs = gs
          and c = "\<lambda>i. int i \<noteq> ?ag" and f = "\<lambda>w. ?bias * (w / sum_other ?st)"]
  note D = gather_loop_range [where B = B and a = a and gs = gs
          and c = "\<lambda>i. int i \<noteq> ?ag" and w = "?bias * (1 / real (length (weights ?st)))"]
  have bias: "?bias = 1 - ?A" using wk k(3) by simp
  have nw: "new_weight B a gs e =
     (if ?S = 1 then clamp (weight e)
         else if ?A \<ge> 1 then (if group e = a then 1 else 0)
         else if ?SO \<noteq> 0 then
           (if group e = a then clamp (weight e)
            else (1 - ?A) * (clamp (weight e) / ?SO))
         else if ?S \<noteq> 0 \<and> ?n > 1 then
           (if group e = a then clamp (weight e)
            else (1 - ?A) * (1 / real ?n))
         else clamp (weight e))" for e
    by (simp add: new_weight_def Let_def A)
  have g1: "g_groups ?st = normalized_groups B a gs"
    if "?S = 1 \<or> (?A < 1 \<and> ?SO = 0 \<and> \<not> (?S \<noteq> 0 \<and> ?n > 1))"
    using that by (intro nth_equalityI) (auto simp: normalized_groups_def gather_g_groups nw)
  have g2: "set_weight ?zero (nat ?ag) 1 = normalized_groups B a gs" if "?S \<noteq> 1" "?A \<ge> 1"
  proof (rule nth_equalityI)
    show "length (set_weight ?zero (nat ?ag) 1) = length (normalized_groups B a gs)"
      using zero(1) by (simp add: set_weight_nth normalized_groups_def)
  next
    fix j assume "j < length (set_weight ?zero (nat ?ag) 1)"
    then have j: "j < length gs" using zero(1) by (simp add: set_weight_nth)
    then have jz: "j < length ?zero" using zero(1) by simp
    have "set_weight ?zero (nat ?ag) 1 ! j =
        (if nat ?ag = j then (?zero ! j)\<lparr>weight := 1\<rparr> else ?zero ! j)"
      by (rule set_weight_nth(2) [OF jz])
    also have "\<dots> = (if k = j then (?zero ! j)\<lparr>weight := 1\<rparr> else ?zero ! j)"
      using k(3) by simp
    also have "?zero ! j =
        (if group (gs ! j) \<in> B then (gs ! j)\<lparr>weight := 0\<rparr> else gs ! j)"
      by (rule zero(2) [OF j])
    also have "(if k = j
         then (if group (gs ! j) \<in> B then (gs ! j)\<lparr>weight := 0\<rparr> else gs ! j)\<lparr>weight := 1\<rparr>
         else (if group (gs ! j) \<in> B then (gs ! j)\<lparr>weight := 0\<rparr> else gs ! j)) =
        normalized_groups B a gs ! j"
      using that j uniq [OF j] k(2) assms(2)
      by (auto simp: normalized_groups_def nw)
    finally show "set_weight ?zero (nat ?ag) 1 ! j = normalized_groups B a gs ! j" .
  qed
  have g3: "?C = normalized_groups B a gs" if "?S \<noteq> 1" "?A < 1" "?SO \<noteq> 0"
  proof (rule nth_equalityI)
    show "length ?C = length (normalized_groups B a gs)"
      using C(1) by (simp only: normalized_groups_def length_map)
  next
    fix j assume "j < length ?C"
    then have j: "j < length gs" using C(1) by (simp only:)
    have "?C ! j = (if group (gs ! j) \<in> B
        then (gs ! j)\<lparr>weight := if int j \<noteq> ?ag
                  then ?bias * (clamp (weight (gs ! j)) / sum_other ?st)
                  else clamp (weight (gs ! j))\<rparr>
        else gs ! j)"
      by (rule C(2) [OF j])
    also have "\<dots> = normalized_groups B a gs ! j"
      using that j uniq [OF j] k(3) bias
      by (auto simp: normalized_groups_def nw gather_sum_other)
    finally show "?C ! j = normalized_groups B a gs ! j" .
  qed
  have g4: "?D = normalized_groups B a gs" if "?S \<noteq> 1" "?A < 1" "?SO = 0" "?S \<noteq> 0" "?n > 1"
  proof (rule nth_equalityI)
    show "length ?D = length (normalized_groups B a gs)"
      using D(1) by (simp only: normalized_groups_def length_map)
  next
    fix j assume "j < length ?D"
    then have j: "j < length gs" using D(1) by (simp only:)
    have "?D ! j = (if group (gs ! j) \<in> B
        then (gs ! j)\<lparr>weight := if int j \<noteq> ?ag
                  then ?bias * (1 / real (length (weights ?st)))
                  else clamp (weight (gs ! j))\<rparr>
        else gs ! j)"
      by (rule D(2) [OF j])
    also have "\<dots> = normalized_groups B a gs ! j"
      using that j uniq [OF j] k(3) bias
      by (auto simp: normalized_groups_def nw gather_length_weights)
    finally show "?D ! j = normalized_groups B a gs ! j" .
  qed
  have conds: "sum_w ?st = ?S" "sum_other ?st = ?SO" "weights ?st ! pos = ?A"
    "length (weights ?st) = ?n"
    by (simp_all add: gather_sum_w gather_sum_other wpos gather_length_weights)
  show ?thesis
  proof (cases "?S = 1")
    case True
    then show ?thesis using g1 by (simp only: unfold conds) simp
  next
    case S: False
    show ?thesis
    proof (cases "?A \<ge> 1")
      case True
      then show ?thesis using S g2 by (simp only: unfold conds) simp
    next
      case A1: False
      show ?thesis
      proof (cases "?SO = 0")
        case False
        then show ?thesis using S A1 g3 by (simp only: unfold conds) simp
      next
        case SO: True
        show ?thesis
        proof (cases "?S \<noteq> 0 \<and> ?n > 1")
          case True
          then show ?thesis using S A1 SO g4 by (simp only: unfold conds) simp
        next
          case False
          then show ?thesis using S A1 SO g1 by (simp only: unfold conds) auto
        qed
      qed
    qed
  qed
qed

subsection \<open>The operator as a whole\<close>

lemma restore_mode_Inr: "restore_mode m s = Inr s' \<Longrightarrow> \<exists>m'. s' = s\<lparr>mode := m'\<rparr>"
  by (auto simp: restore_mode_def mode_set_def Let_def split: if_splits)

lemma restore_mode_Inl: "restore_mode m s = Inl e \<Longrightarrow> e = TypeError"
  by (auto simp: restore_mode_def mode_set_def Let_def split: if_splits)

lemma assign_all_groups_Inl: "assign_all_groups s G = Inl e \<Longrightarrow> e = TypeError"
  by (auto simp: assign_all_groups_def mode_set_EDIT Let_def split: sum.splits
      dest: restore_mode_Inl)

lemma assign_all_groups_Inr:
  assumes "assign_all_groups s G = Inr s'"
  shows "vertices s' = vertices (fold (assign_group (find_not_found (vertices s) G) G)
                    [0..<length G] (s\<lparr>mode := ''EDIT'', vertex_group_weight := 0\<rparr>))"
    and "active_index s' = active_index s"
    and "vertex_groups s' = vertex_groups s"
proof -
  let ?s3 = "fold (assign_group (find_not_found (vertices s) G) G)
                    [0..<length G] (s\<lparr>mode := ''EDIT'', vertex_group_weight := 0\<rparr>)"
  from assms obtain s4 where s4: "restore_mode (context_mode s) ?s3 = Inr s4"
    and s': "s' = s4\<lparr>vertex_group_weight := vertex_group_weight s, active_index := active_index s\<rparr>"
    by (auto simp: assign_all_groups_def mode_set_EDIT Let_def split: sum.splits)
  from restore_mode_Inr [OF s4] obtain m' where m': "s4 = ?s3\<lparr>mode := m'\<rparr>" by blast
  show "vertices s' = vertices ?s3" using s' m' by simp
  show "active_index s' = active_index s" using s' by simp
  show "vertex_groups s' = vertex_groups s"
    using s' m' by (simp add: fold_assign_group_fields)
qed

lemma assign_all_groups_Inr_vertex:
  assumes "\<forall>g\<in>set G. g < length (vertex_groups s)"
    "assign_all_groups s G = Inr s'" "i < length (vertices s)"
  shows "groups (vertices s' ! i) =
     add_missing (groups (vertices s ! i)) G (groups (vertices s ! i))"
    and "length (vertices s') = length (vertices s)"
proof -
  let ?s2 = "s\<lparr>mode := ''EDIT'', vertex_group_weight := 0\<rparr>"
  let ?nf = "find_not_found (vertices s) G"
  note v = assign_all_groups_Inr(1) [OF assms(2)]
  have "groups (vertices (fold (assign_group ?nf G) [0..<length G] ?s2) ! i) =
     add_missing (groups (vertices ?s2 ! i)) (take (length G) G) (groups (vertices ?s2 ! i))"
    using assms(1,3) by (intro assign_loop_groups) (simp_all add: find_not_found_set)
  with v show "groups (vertices s' ! i) =
     add_missing (groups (vertices s ! i)) G (groups (vertices s ! i))" by simp
  show "length (vertices s') = length (vertices s)"
    using v by (simp add: fold_assign_group_fields)
qed

lemma get_bone_indexes_valid: "\<forall>g\<in>set (get_bone_indexes s bones). g < length (vertex_groups s)"
  by (simp add: get_bone_indexes_def)

lemma active_in_bone_indexes:
  "active_index s < length (vertex_groups s) \<Longrightarrow>
   vertex_groups s ! active_index s \<in> set bones \<Longrightarrow>
   active_index s \<in> set (get_bone_indexes s bones)"
  by (simp add: get_bone_indexes_def)

lemma normalize_vertices_Inr:
  "normalize_vertices B a vs = Inr vs' \<Longrightarrow>
   length vs' = length vs \<and> (\<forall>i<length vs. normalize_vertex B a (vs ! i) = Inr (vs' ! i))"
proof (induction vs arbitrary: vs')
  case Nil
  then show ?case by simp
next
  case (Cons v vs)
  from Cons.prems obtain v' vs1 where
    v': "normalize_vertex B a v = Inr v'" and vs1: "normalize_vertices B a vs = Inr vs1"
    and eq: "vs' = v' # vs1"
    by (auto split: sum.splits)
  from Cons.IH [OF vs1] v' eq show ?case
    by (auto simp: nth_Cons')
qed

lemma normalize_vertices_total:
  "\<forall>v\<in>set vs. \<exists>v'. normalize_vertex B a v = Inr v' \<Longrightarrow>
   \<exists>vs'. normalize_vertices B a vs = Inr vs'"
  by (induction vs) (auto split: sum.splits)

lemma normalize_vertices_Inl:
  "normalize_vertices B a vs = Inl e \<Longrightarrow> \<exists>v\<in>set vs. normalize_vertex B a v = Inl e"
  by (induction vs) (auto split: sum.splits)

lemma normalize_vertex_Inr:
  "normalize_vertex B a v = Inr v' \<longleftrightarrow>
   (\<exists>gs'. apply_normalization (gather B a (groups v)) = Inr gs' \<and> v' = v\<lparr>groups := gs'\<rparr>)"
  by (auto simp: normalize_vertex_def split: sum.splits)

lemma normalize_with_bones_finished:
  assumes "normalize_with_bones bones n s = Inr (r, FINISHED, s')"
  shows "bones \<noteq> [] \<and> active_index s < length (vertex_groups s)
     \<and> vertex_groups s ! active_index s \<in> set bones
     \<and> r = (if n > 1 then [warning_report] else [])
     \<and> (\<exists>s1 vs. assign_all_groups s (get_bone_indexes s bones) = Inr s1
          \<and> normalize_vertices (set (get_bone_indexes s bones)) (active_index s1) (vertices s1)
              = Inr vs
          \<and> s' = s1\<lparr>vertices := vs\<rparr>)"
  using assms
  by (auto simp: normalize_with_bones_def Let_def warning_report_def split: if_splits sum.splits)

lemma apply_normalization_total:
  assumes "a \<in> B" "a \<in> group ` set gs"
  shows "\<exists>gs'. apply_normalization (gather B a gs) = Inr gs'"
proof -
  let ?st = "gather B a gs"
  from gather_active_present [OF assms] obtain k where
    k: "k < length gs" "group (gs ! k) = a" "active_group ?st = int k" by blast
  have "(k, gs ! k) \<in> set (collected B gs)"
    using k assms(1) by (simp add: collected_mem)
  then have "k \<in> fst ` set (collected B gs)" by force
  then have "int k \<in> set (map int (indexes ?st))" by (auto simp: gather_indexes)
  from index_of_mem [OF this] obtain pos where
    pos: "index_of (map int (indexes ?st)) (active_group ?st) = Inr pos"
    using k(3) by auto
  show ?thesis
    unfolding apply_normalization_def Let_def pos by simp
qed

lemma apply_normalization_lookup_fails:
  assumes "a \<notin> group ` set gs" "clamped_sum (\<lambda>e. group e \<in> B \<and> group e \<noteq> a) gs = 0"
  shows "apply_normalization (gather B a gs) = Inl ValueError"
proof -
  let ?st = "gather B a gs"
  have ag: "active_group ?st = - 1"
    using assms(1) by (intro gather_active_absent) auto
  have so: "sum_other ?st = 0" using assms(2) by (simp add: gather_sum_other)
  have "filter (\<lambda>e. group e \<in> B) gs = filter (\<lambda>e. group e \<in> B \<and> group e \<noteq> a) gs"
    using assms(1) by (intro filter_cong) auto
  then have sw: "sum_w ?st = 0"
    using assms(2) by (simp add: gather_sum_w clamped_sum_def)
  have "(- 1 :: int) \<notin> set (map int (indexes ?st))" by auto
  then have io: "index_of (map int (indexes ?st)) (- 1) = Inl ValueError"
    by (rule index_of_absent)
  show ?thesis
    unfolding apply_normalization_def Let_def ag so sw io by simp
qed

lemma normalize_armature_vertex:
  assumes "normalize_armature s = Inr (r, FINISHED, s')" "i < length (vertices s)"
  shows "length (vertices s') = length (vertices s)
    \<and> active_index s \<in> bone_index_set s
    \<and> (\<exists>zs. (\<forall>z\<in>set zs. weight z = 0) \<and> distinct (map group zs)
          \<and> group ` set zs = bone_index_set s - group ` set (groups (vertices s ! i))
          \<and> apply_normalization
               (gather (bone_index_set s) (active_index s) (groups (vertices s ! i) @ zs))
              = Inr (groups (vertices s' ! i)))"
proof -
  let ?G = "get_bone_indexes s (found_bones s)"
  let ?gs0 = "groups (vertices s ! i)"
  from assms(1) have "normalize_with_bones (found_bones s)
      (snd (find_bones (modifiers s) [] 0)) s = Inr (r, FINISHED, s')"
    by (simp add: normalize_armature_with)
  from normalize_with_bones_finished [OF this] obtain s1 vs where
    act: "active_index s < length (vertex_groups s)"
      "vertex_groups s ! active_index s \<in> set (found_bones s)"
    and s1: "assign_all_groups s ?G = Inr s1"
    and vs: "normalize_vertices (set ?G) (active_index s1) (vertices s1) = Inr vs"
    and s': "s' = s1\<lparr>vertices := vs\<rparr>"
    by blast
  have a1: "active_index s1 = active_index s" using s1 by (rule assign_all_groups_Inr(2))
  note v1 = assign_all_groups_Inr_vertex [OF get_bone_indexes_valid s1 assms(2)]
  have i1: "i < length (vertices s1)" using v1(2) assms(2) by simp
  from normalize_vertices_Inr [OF vs] i1 have
    len: "length vs = length (vertices s1)"
    and nv: "normalize_vertex (set ?G) (active_index s1) (vertices s1 ! i) = Inr (vs ! i)"
    by auto
  from nv obtain gs' where
    gs': "apply_normalization (gather (set ?G) (active_index s) (groups (vertices s1 ! i)))
        = Inr gs'" "vs ! i = (vertices s1 ! i)\<lparr>groups := gs'\<rparr>"
    unfolding normalize_vertex_Inr a1 by blast
  obtain zs where zs: "add_missing ?gs0 ?G ?gs0 = ?gs0 @ zs" "\<forall>z\<in>set zs. weight z = 0"
      "distinct (map group zs)" "group ` set zs = set ?G - group ` set ?gs0"
    using add_missing_result [of ?gs0 ?G] by blast
  have "apply_normalization (gather (bone_index_set s) (active_index s) (?gs0 @ zs))
              = Inr (groups (vertices s' ! i))"
    using gs' v1(1) zs(1) s' by (simp add: bone_index_set_def)
  moreover have "length (vertices s') = length (vertices s)"
    using s' len v1(2) by simp
  moreover have "active_index s \<in> bone_index_set s"
    using act by (simp add: bone_index_set_def active_in_bone_indexes)
  ultimately show ?thesis
    using zs(2,3,4) by (auto simp: bone_index_set_def)
qed

lemma frame_filter:
  "length gs' = length gs \<Longrightarrow>
   \<forall>j<length gs. group (gs' ! j) = group (gs ! j) \<and> (group (gs ! j) \<notin> B \<longrightarrow> gs' ! j = gs ! j) \<Longrightarrow>
   filter (\<lambda>e. group e \<notin> B) gs' = filter (\<lambda>e. group e \<notin> B) gs"
proof (induction gs arbitrary: gs')
  case Nil
  then show ?case by simp
next
  case (Cons g gs)
  from Cons.prems(1) obtain g' gs1 where gs': "gs' = g' # gs1" "length gs1 = length gs"
    by (cases gs') auto
  have hd: "group g' = group g" "group g \<notin> B \<longrightarrow> g' = g"
    using Cons.prems(2) gs' by auto
  have tl: "\<forall>j<length gs. group (gs1 ! j) = group (gs ! j)
      \<and> (group (gs ! j) \<notin> B \<longrightarrow> gs1 ! j = gs ! j)"
  proof (intro allI impI)
    fix j assume "j < length gs"
    then have "Suc j < length (g # gs)" by simp
    with Cons.prems(2) gs' show "group (gs1 ! j) = group (gs ! j)
      \<and> (group (gs ! j) \<notin> B \<longrightarrow> gs1 ! j = gs ! j)"
      by fastforce
  qed
  from Cons.IH [OF gs'(2) tl] hd gs' show ?case by auto
qed

subsection \<open>Groups outside the armature\<close>

text \<open>
  C8. Whatever the operator returns, every vertex keeps its entries for the groups that
  are not bone groups exactly as they were: the same entries, with the same weights, in
  the same order.
\<close>

theorem non_armature_groups_untouched:
  assumes "normalize_armature s = Inr (r, st, s')" "i < length (vertices s)"
  shows "length (vertices s') = length (vertices s)
    \<and> filter (\<lambda>e. group e \<notin> bone_index_set s) (groups (vertices s' ! i)) =
      filter (\<lambda>e. group e \<notin> bone_index_set s) (groups (vertices s ! i))"
proof (cases st)
  case CANCELLED
  with assms(1) have "s' = s"
    by (simp add: normalize_armature_with cancelled_unchanged)
  then show ?thesis by simp
next
  case FINISHED
  let ?B = "bone_index_set s"
  let ?gs0 = "groups (vertices s ! i)"
  from normalize_armature_vertex [OF assms(1) [unfolded FINISHED] assms(2)] obtain zs where
    len: "length (vertices s') = length (vertices s)"
    and zs: "group ` set zs = ?B - group ` set ?gs0"
    and an: "apply_normalization (gather ?B (active_index s) (?gs0 @ zs))
              = Inr (groups (vertices s' ! i))"
    by blast
  from apply_normalization_frame [OF an] have
    "filter (\<lambda>e. group e \<notin> ?B) (groups (vertices s' ! i)) =
     filter (\<lambda>e. group e \<notin> ?B) (?gs0 @ zs)"
    by (intro frame_filter) auto
  also have "\<dots> = filter (\<lambda>e. group e \<notin> ?B) ?gs0"
    using zs by (auto simp: filter_empty_conv)
  finally show ?thesis using len by simp
qed

subsection \<open>The lookup of the active group\<close>

text \<open>
  C10. For a vertex that has an entry for the active group, which is a bone group, the
  loop records a position for it (\<open>active_group\<close> is not \<open>-1\<close>), it collects at least one
  weight, and the body returns without an exception. For a vertex with no entry for the
  active group whose other collected weights sum to zero, \<^verbatim>\<open>indexes.index(active_group)\<close>
  raises \<^verbatim>\<open>ValueError\<close>. Since \<^const>\<open>assign_all_groups\<close> has run before the loop, the
  operator itself never ends in that \<^verbatim>\<open>ValueError\<close>.
\<close>

theorem lookup_never_fails_after_guarantor:
  "(a \<in> B \<and> a \<in> group ` set (groups v) \<longrightarrow>
      active_group (gather B a (groups v)) \<noteq> - 1
      \<and> weights (gather B a (groups v)) \<noteq> []
      \<and> (\<exists>v'. normalize_vertex B a v = Inr v'))
   \<and> (a \<notin> group ` set (groups v)
        \<and> clamped_sum (\<lambda>e. group e \<in> B \<and> group e \<noteq> a) (groups v) = 0 \<longrightarrow>
      normalize_vertex B a v = Inl ValueError)
   \<and> normalize_armature s \<noteq> Inl ValueError"
proof (intro conjI impI)
  assume h: "a \<in> B \<and> a \<in> group ` set (groups v)"
  from gather_active_present [of a B "groups v"] h
  show "active_group (gather B a (groups v)) \<noteq> - 1" by auto
  from h obtain e where "e \<in> set (groups v)" "group e \<in> B" by auto
  then have "filter (\<lambda>e. group e \<in> B) (groups v) \<noteq> []"
    by (auto simp: filter_empty_conv)
  then have "length (weights (gather B a (groups v))) \<noteq> 0"
    by (simp add: gather_length_weights)
  then show "weights (gather B a (groups v)) \<noteq> []" by simp
  from apply_normalization_total [of a B "groups v"] h
  show "\<exists>v'. normalize_vertex B a v = Inr v'"
    by (auto simp: normalize_vertex_Inr)
next
  assume "a \<notin> group ` set (groups v)
        \<and> clamped_sum (\<lambda>e. group e \<in> B \<and> group e \<noteq> a) (groups v) = 0"
  then show "normalize_vertex B a v = Inl ValueError"
    by (simp add: normalize_vertex_def apply_normalization_lookup_fails)
next
  show "normalize_armature s \<noteq> Inl ValueError"
  proof
    let ?bones = "found_bones s"
    let ?G = "get_bone_indexes s ?bones"
    assume "normalize_armature s = Inl ValueError"
    then have nb: "normalize_with_bones ?bones (snd (find_bones (modifiers s) [] 0)) s
        = Inl ValueError"
      by (simp add: normalize_armature_with)
    then have act: "active_index s < length (vertex_groups s)"
        "vertex_groups s ! active_index s \<in> set ?bones"
      by (auto simp: normalize_with_bones_def Let_def split: if_splits)
    from nb act obtain s1 where s1: "assign_all_groups s ?G = Inr s1"
      and vs: "normalize_vertices (set ?G) (active_index s1) (vertices s1) = Inl ValueError"
      by (auto simp: normalize_with_bones_def Let_def split: if_splits sum.splits
          dest: assign_all_groups_Inl)
    from normalize_vertices_Inl [OF vs] obtain v1 where
      v1: "v1 \<in> set (vertices s1)"
        "normalize_vertex (set ?G) (active_index s1) v1 = Inl ValueError"
      by blast
    from v1(1) obtain i where i: "i < length (vertices s1)" "v1 = vertices s1 ! i"
      by (auto simp: in_set_conv_nth)
    have a1: "active_index s1 = active_index s" using s1 by (rule assign_all_groups_Inr(2))
    have li: "i < length (vertices s)"
      using i(1) assign_all_groups_Inr(1) [OF s1] by (simp add: fold_assign_group_fields)
    note g = assign_all_groups_Inr_vertex(1) [OF get_bone_indexes_valid s1 li]
    obtain zs where zs: "add_missing (groups (vertices s ! i)) ?G (groups (vertices s ! i))
        = groups (vertices s ! i) @ zs"
      "group ` set zs = set ?G - group ` set (groups (vertices s ! i))"
      using add_missing_result [of "groups (vertices s ! i)" ?G] by blast
    have ain: "active_index s \<in> set ?G" using act by (rule active_in_bone_indexes)
    have "active_index s \<in> group ` set (groups v1)"
      using ain zs g i(2) by (auto simp: image_Un)
    from apply_normalization_total [OF ain this] v1(2)
    show False by (auto simp: normalize_vertex_def a1)
  qed
qed

theorem lookup_never_fails_after_guarantor_witness:
  "(0::nat) \<in> {0, 1}
   \<and> 0 \<in> group ` set [\<lparr>group = 0, weight = 1/2\<rparr>, \<lparr>group = 1, weight = 0\<rparr>]
   \<and> active_group (gather {0, 1} 0 [\<lparr>group = 0, weight = 1/2\<rparr>, \<lparr>group = 1, weight = 0\<rparr>]) \<noteq> - 1
   \<and> weights (gather {0, 1} 0 [\<lparr>group = 0, weight = 1/2\<rparr>, \<lparr>group = 1, weight = 0\<rparr>]) \<noteq> []
   \<and> (\<exists>v'. normalize_vertex {0, 1} 0
          \<lparr>groups = [\<lparr>group = 0, weight = 1/2\<rparr>, \<lparr>group = 1, weight = 0\<rparr>], select = False\<rparr> = Inr v')
   \<and> 0 \<notin> group ` set [\<lparr>group = 1, weight = 0\<rparr>]
   \<and> clamped_sum (\<lambda>e. group e \<in> {0, 1} \<and> group e \<noteq> 0) [\<lparr>group = 1, weight = 0\<rparr>] = 0
   \<and> normalize_vertex {0, 1} 0 \<lparr>groups = [\<lparr>group = 1, weight = 0\<rparr>], select = False\<rparr>
       = Inl ValueError"
proof -
  have a: "(0::nat) \<in> {0, 1}
      \<and> 0 \<in> group ` set (groups \<lparr>groups = [\<lparr>group = 0, weight = 1/2\<rparr>, \<lparr>group = 1, weight = 0\<rparr>],
             select = False\<rparr>)"
    by simp
  have b: "0 \<notin> group ` set (groups \<lparr>groups = [\<lparr>group = 1, weight = 0\<rparr>], select = False\<rparr>)
      \<and> clamped_sum (\<lambda>e. group e \<in> {0, 1} \<and> group e \<noteq> 0)
          (groups \<lparr>groups = [\<lparr>group = 1, weight = 0\<rparr>], select = False\<rparr>) = 0"
    by (simp add: clamped_sum_def clamp_def)
  show ?thesis
    using a b
      lookup_never_fails_after_guarantor [of 0 "{0, 1}"
        "\<lparr>groups = [\<lparr>group = 0, weight = 1/2\<rparr>, \<lparr>group = 1, weight = 0\<rparr>], select = False\<rparr>"
        half_ctx]
      lookup_never_fails_after_guarantor [of 0 "{0, 1}"
        "\<lparr>groups = [\<lparr>group = 1, weight = 0\<rparr>], select = False\<rparr>" half_ctx]
    by simp
qed

subsection \<open>A run with two armatures\<close>

lemma two_armatures_run:
  "normalize_armature two_armatures_ctx =
     Inr ([warning_report], FINISHED,
          two_armatures_ctx\<lparr>vertices :=
            [\<lparr>groups = [\<lparr>group = 0, weight = 1/2\<rparr>, \<lparr>group = 1, weight = 1/2\<rparr>,
                        \<lparr>group = 2, weight = 1/2\<rparr>],
              select = False\<rparr>]\<rparr>)"
  by code_simp

lemma two_armatures_bones: "bone_index_set two_armatures_ctx = {0, 2}"
  by code_simp

theorem non_armature_groups_untouched_witness:
  "normalize_armature two_armatures_ctx =
     Inr ([warning_report], FINISHED,
          two_armatures_ctx\<lparr>vertices :=
            [\<lparr>groups = [\<lparr>group = 0, weight = 1/2\<rparr>, \<lparr>group = 1, weight = 1/2\<rparr>,
                        \<lparr>group = 2, weight = 1/2\<rparr>],
              select = False\<rparr>]\<rparr>)
   \<and> (0::nat) < length (vertices two_armatures_ctx)
   \<and> bone_index_set two_armatures_ctx = {0, 2}
   \<and> filter (\<lambda>e. group e \<notin> bone_index_set two_armatures_ctx)
        (groups (vertices (two_armatures_ctx\<lparr>vertices :=
            [\<lparr>groups = [\<lparr>group = 0, weight = 1/2\<rparr>, \<lparr>group = 1, weight = 1/2\<rparr>,
                        \<lparr>group = 2, weight = 1/2\<rparr>],
              select = False\<rparr>]\<rparr>) ! 0))
       = filter (\<lambda>e. group e \<notin> bone_index_set two_armatures_ctx)
          (groups (vertices two_armatures_ctx ! 0))"
proof -
  have i: "(0::nat) < length (vertices two_armatures_ctx)"
    by (simp add: two_armatures_ctx_def)
  note t = non_armature_groups_untouched [OF two_armatures_run i]
  show ?thesis
    using two_armatures_run i two_armatures_bones t by blast
qed

subsection \<open>Sums of weights\<close>

lemma clamp_simps: "clamp 0 = 0" "0 < w \<Longrightarrow> w < 1 \<Longrightarrow> clamp w = w"
  by (simp_all add: clamp_def)

lemma clamped_sum_append:
  "clamped_sum P (xs @ ys) = clamped_sum P xs + clamped_sum P ys"
  by (simp add: clamped_sum_def)

lemma clamped_sum_zero: "\<forall>z\<in>set zs. weight z = 0 \<Longrightarrow> clamped_sum P zs = 0"
  by (induction zs) (auto simp: clamped_sum_def clamp_def)

lemma sum_list_split_active:
  fixes h :: "group_info \<Rightarrow> real"
  shows "a \<in> B \<Longrightarrow>
   sum_list (map h (filter (\<lambda>e. group e \<in> B) gs)) =
     sum_list (map h (filter (\<lambda>e. group e = a) gs))
     + sum_list (map h (filter (\<lambda>e. group e \<in> B \<and> group e \<noteq> a) gs))"
  by (induction gs) auto

lemma clamped_sum_split:
  "a \<in> B \<Longrightarrow>
   clamped_sum (\<lambda>e. group e \<in> B) gs =
     clamped_sum (\<lambda>e. group e = a) gs + clamped_sum (\<lambda>e. group e \<in> B \<and> group e \<noteq> a) gs"
  unfolding clamped_sum_def by (rule sum_list_split_active)

lemma sum_list_scaled:
  fixes f :: "'a \<Rightarrow> real"
  shows "sum_list (map (\<lambda>e. c * (f e / d)) xs) = c * (sum_list (map f xs) / d)"
  by (induction xs) (simp_all add: algebra_simps add_divide_distrib)

lemma armature_sum_normalized:
  "armature_sum B (normalized_groups B a gs) =
     sum_list (map (new_weight B a gs) (filter (\<lambda>e. group e \<in> B) gs))"
proof -
  let ?F = "\<lambda>e. if group e \<in> B then e\<lparr>weight := new_weight B a gs e\<rparr> else e"
  have "filter (\<lambda>e. group e \<in> B) (map ?F gs) = map ?F (filter (\<lambda>e. group e \<in> B) gs)"
    unfolding filter_map by (rule arg_cong [where f = "map ?F"]) (rule filter_cong, auto)
  moreover have "map weight (map ?F (filter (\<lambda>e. group e \<in> B) gs)) =
      map (new_weight B a gs) (filter (\<lambda>e. group e \<in> B) gs)"
    by simp
  ultimately show ?thesis
    by (simp only: armature_sum_def normalized_groups_def)
qed

lemma new_weight_unfold:
  "new_weight B a gs e =
     (if clamped_sum (\<lambda>e. group e \<in> B) gs = 1 then clamp (weight e)
      else if clamped_sum (\<lambda>e. group e = a) gs \<ge> 1 then (if group e = a then 1 else 0)
      else if clamped_sum (\<lambda>e. group e \<in> B \<and> group e \<noteq> a) gs \<noteq> 0 then
        (if group e = a then clamp (weight e)
         else (1 - clamped_sum (\<lambda>e. group e = a) gs)
              * (clamp (weight e) / clamped_sum (\<lambda>e. group e \<in> B \<and> group e \<noteq> a) gs))
      else if clamped_sum (\<lambda>e. group e \<in> B) gs \<noteq> 0
              \<and> length (filter (\<lambda>e. group e \<in> B) gs) > 1 then
        (if group e = a then clamp (weight e)
         else (1 - clamped_sum (\<lambda>e. group e = a) gs)
              * (1 / real (length (filter (\<lambda>e. group e \<in> B) gs))))
      else clamp (weight e))"
  by (simp add: new_weight_def Let_def)

lemma normalized_sum_one:
  assumes "distinct (map group gs)" "a \<in> B" "a \<in> group ` set gs"
    "1 \<le> clamped_sum (\<lambda>e. group e = a) gs
     \<or> clamped_sum (\<lambda>e. group e \<in> B \<and> group e \<noteq> a) gs \<noteq> 0"
  shows "armature_sum B (normalized_groups B a gs) = 1"
proof -
  let ?S = "clamped_sum (\<lambda>e. group e \<in> B) gs"
  let ?A = "clamped_sum (\<lambda>e. group e = a) gs"
  let ?SO = "clamped_sum (\<lambda>e. group e \<in> B \<and> group e \<noteq> a) gs"
  let ?W = "new_weight B a gs"
  let ?others = "filter (\<lambda>e. group e \<in> B \<and> group e \<noteq> a) gs"
  from assms(3) obtain ea where ea: "ea \<in> set gs" "group ea = a" by auto
  have single: "filter (\<lambda>e. group e = a) gs = [ea]"
    using filter_group_single [OF assms(1) ea(1)] ea(2) by simp
  have A: "?A = clamp (weight ea)" by (simp add: clamped_sum_def single)
  have S: "?S = ?A + ?SO" using assms(2) by (rule clamped_sum_split)
  have total: "armature_sum B (normalized_groups B a gs) =
      ?W ea + sum_list (map ?W ?others)"
    unfolding armature_sum_normalized
    using sum_list_split_active [OF assms(2), of ?W gs] by (simp add: single)
  show ?thesis
  proof (cases "?S = 1")
    case True
    then have "?W = (\<lambda>e. clamp (weight e))"
      by (intro ext) (simp add: new_weight_unfold)
    then have "?W ea + sum_list (map ?W ?others) = ?A + ?SO"
      by (simp add: clamped_sum_def single)
    with total S True show ?thesis by simp
  next
    case S1: False
    show ?thesis
    proof (cases "1 \<le> ?A")
      case True
      have w: "?W ea = 1" using S1 True ea(2) by (simp add: new_weight_unfold)
      have "sum_list (map ?W ?others) = sum_list (map (\<lambda>e. 0) ?others)"
        using S1 True
        by (intro arg_cong [where f = sum_list] map_cong) (auto simp: new_weight_unfold)
      also have "\<dots> = 0" by simp
      finally show ?thesis using total w by simp
    next
      case False
      with assms(4) have SO: "?SO \<noteq> 0" by simp
      have w: "?W ea = ?A" using S1 False SO ea(2) A by (simp add: new_weight_unfold)
      have "sum_list (map ?W ?others) =
          sum_list (map (\<lambda>e. (1 - ?A) * (clamp (weight e) / ?SO)) ?others)"
        using S1 False SO
        by (intro arg_cong [where f = sum_list] map_cong) (auto simp: new_weight_unfold)
      also have "\<dots> = (1 - ?A) * (?SO / ?SO)"
        unfolding sum_list_scaled by (simp add: clamped_sum_def)
      also have "\<dots> = 1 - ?A" using SO by simp
      finally show ?thesis using total w by simp
    qed
  qed
qed

lemma new_weight_case_C:
  assumes "a \<in> B" "clamped_sum (\<lambda>e. group e = a) gs < 1"
    "clamped_sum (\<lambda>e. group e \<in> B \<and> group e \<noteq> a) gs \<noteq> 0"
  shows "new_weight B a gs e =
     (if group e = a then clamp (weight e)
      else (1 - clamped_sum (\<lambda>e. group e = a) gs)
           * (clamp (weight e) / clamped_sum (\<lambda>e. group e \<in> B \<and> group e \<noteq> a) gs))"
proof (cases "clamped_sum (\<lambda>e. group e \<in> B) gs = 1")
  case True
  then have "1 - clamped_sum (\<lambda>e. group e = a) gs =
      clamped_sum (\<lambda>e. group e \<in> B \<and> group e \<noteq> a) gs"
    using clamped_sum_split [OF assms(1), of gs] by simp
  with True assms(3) show ?thesis by (simp add: new_weight_unfold)
next
  case False
  with assms show ?thesis by (simp add: new_weight_unfold)
qed

lemma normalize_armature_closed_form:
  assumes "normalize_armature s = Inr (r, FINISHED, s')" "i < length (vertices s)"
    "distinct (map group (groups (vertices s ! i)))"
  shows "\<exists>zs. (\<forall>z\<in>set zs. weight z = 0)
     \<and> group ` set zs = bone_index_set s - group ` set (groups (vertices s ! i))
     \<and> distinct (map group (groups (vertices s ! i) @ zs))
     \<and> active_index s \<in> bone_index_set s
     \<and> active_index s \<in> group ` set (groups (vertices s ! i) @ zs)
     \<and> groups (vertices s' ! i) =
         normalized_groups (bone_index_set s) (active_index s) (groups (vertices s ! i) @ zs)"
proof -
  let ?B = "bone_index_set s"
  let ?a = "active_index s"
  let ?gs0 = "groups (vertices s ! i)"
  from normalize_armature_vertex [OF assms(1,2)] obtain zs where
    a: "?a \<in> ?B"
    and zs: "\<forall>z\<in>set zs. weight z = 0" "distinct (map group zs)"
      "group ` set zs = ?B - group ` set ?gs0"
    and an: "apply_normalization (gather ?B ?a (?gs0 @ zs)) = Inr (groups (vertices s' ! i))"
    by blast
  have d: "distinct (map group (?gs0 @ zs))"
    using assms(3) zs(2,3) by auto
  have p: "?a \<in> group ` set (?gs0 @ zs)"
    using a zs(3) by (auto simp: image_Un)
  from apply_normalization_closed_form [OF d a p] an
  have "groups (vertices s' ! i) = normalized_groups ?B ?a (?gs0 @ zs)" by simp
  with zs a d p show ?thesis by blast
qed

subsection \<open>The sum over the bone groups\<close>

text \<open>
  C1, as the code has it. Take a vertex with one entry per group. If, after clamping,
  its weight in the active group is at least \<open>1\<close>, or its weights in the other bone groups
  do not sum to zero, then after a run that returns \<open>FINISHED\<close> its weights over the bone
  groups sum to exactly \<open>1\<close>. Nothing is said here about a vertex whose only weight is
  an active weight below \<open>1\<close>.
\<close>

theorem sum_is_one_unless_only_active_has_weight:
  assumes "normalize_armature s = Inr (r, FINISHED, s')" "i < length (vertices s)"
    "distinct (map group (groups (vertices s ! i)))"
    "1 \<le> clamped_sum (\<lambda>e. group e = active_index s) (groups (vertices s ! i))
     \<or> clamped_sum (\<lambda>e. group e \<in> bone_index_set s \<and> group e \<noteq> active_index s)
          (groups (vertices s ! i)) \<noteq> 0"
  shows "armature_sum (bone_index_set s) (groups (vertices s' ! i)) = 1"
proof -
  let ?B = "bone_index_set s"
  let ?a = "active_index s"
  let ?gs0 = "groups (vertices s ! i)"
  from normalize_armature_closed_form [OF assms(1,2,3)] obtain zs where
    zs: "\<forall>z\<in>set zs. weight z = 0"
    and d: "distinct (map group (?gs0 @ zs))"
    and a: "?a \<in> ?B" "?a \<in> group ` set (?gs0 @ zs)"
    and g: "groups (vertices s' ! i) = normalized_groups ?B ?a (?gs0 @ zs)"
    by blast
  have sums: "clamped_sum P (?gs0 @ zs) = clamped_sum P ?gs0" for P
    using zs by (simp add: clamped_sum_append clamped_sum_zero)
  have "1 \<le> clamped_sum (\<lambda>e. group e = ?a) (?gs0 @ zs)
     \<or> clamped_sum (\<lambda>e. group e \<in> ?B \<and> group e \<noteq> ?a) (?gs0 @ zs) \<noteq> 0"
    using assms(4) by (simp only: sums)
  from normalized_sum_one [OF d a this] g show ?thesis by simp
qed

theorem sum_is_one_unless_only_active_has_weight_witness:
  "normalize_armature two_armatures_ctx =
     Inr ([warning_report], FINISHED,
          two_armatures_ctx\<lparr>vertices :=
            [\<lparr>groups = [\<lparr>group = 0, weight = 1/2\<rparr>, \<lparr>group = 1, weight = 1/2\<rparr>,
                        \<lparr>group = 2, weight = 1/2\<rparr>],
              select = False\<rparr>]\<rparr>)
   \<and> (0::nat) < length (vertices two_armatures_ctx)
   \<and> distinct (map group (groups (vertices two_armatures_ctx ! 0)))
   \<and> clamped_sum (\<lambda>e. group e \<in> bone_index_set two_armatures_ctx
                         \<and> group e \<noteq> active_index two_armatures_ctx)
          (groups (vertices two_armatures_ctx ! 0)) \<noteq> 0
   \<and> armature_sum (bone_index_set two_armatures_ctx)
        (groups (vertices (two_armatures_ctx\<lparr>vertices :=
            [\<lparr>groups = [\<lparr>group = 0, weight = 1/2\<rparr>, \<lparr>group = 1, weight = 1/2\<rparr>,
                        \<lparr>group = 2, weight = 1/2\<rparr>],
              select = False\<rparr>]\<rparr>) ! 0)) = 1"
proof -
  have i: "(0::nat) < length (vertices two_armatures_ctx)"
    by (simp add: two_armatures_ctx_def)
  have d: "distinct (map group (groups (vertices two_armatures_ctx ! 0)))"
    by (simp add: two_armatures_ctx_def)
  have o: "clamped_sum (\<lambda>e. group e \<in> bone_index_set two_armatures_ctx
                         \<and> group e \<noteq> active_index two_armatures_ctx)
          (groups (vertices two_armatures_ctx ! 0)) \<noteq> 0"
    unfolding two_armatures_bones
    by (simp add: two_armatures_ctx_def clamped_sum_def clamp_def)
  note t = sum_is_one_unless_only_active_has_weight [OF two_armatures_run i d disjI2 [OF o]]
  show ?thesis
    using two_armatures_run i d o t by blast
qed

text \<open>
  C1, as stated, fails for an armature of one bone: the vertex has a nonzero weight in
  the only bone group, the run returns \<open>FINISHED\<close>, and the weight stays at one half.
\<close>

theorem single_group_stays_below_one:
  "normalize_armature single_bone_ctx = Inr ([], FINISHED, single_bone_ctx)
   \<and> bone_index_set single_bone_ctx = {0}
   \<and> groups (vertices single_bone_ctx ! 0) = [\<lparr>group = 0, weight = 1/2\<rparr>]
   \<and> armature_sum {0} [\<lparr>group = 0, weight = 1/2\<rparr>] = 1/2
   \<and> \<not> \<bar>(1/2 :: real) - 1\<bar> \<le> 1/1000000"
  by code_simp

subsection \<open>Rescaling around the active group\<close>

text \<open>
  C5. Take a vertex with one entry per group whose entry \<open>ea\<close> for the active group has
  a weight strictly between \<open>0\<close> and \<open>1\<close>, and whose other bone groups have clamped
  weights of positive sum. After a run that returns \<open>FINISHED\<close> the vertex has its old
  entries in their old places, followed by the zero entries \<open>zs\<close> that were added for its
  missing bone groups: the entry of the active group and the entries outside the bone
  groups are unchanged, and every other bone-group entry of clamped weight \<open>w\<close> now has the
  weight \<open>(1 - weight ea) * (w / sum_other)\<close>.
\<close>

theorem case_C_rescales_others:
  assumes "normalize_armature s = Inr (r, FINISHED, s')" "i < length (vertices s)"
    "distinct (map group (groups (vertices s ! i)))"
    "ea \<in> set (groups (vertices s ! i))" "group ea = active_index s"
    "0 < weight ea" "weight ea < 1"
    "0 < clamped_sum (\<lambda>e. group e \<in> bone_index_set s \<and> group e \<noteq> active_index s)
          (groups (vertices s ! i))"
  shows "\<exists>zs. (\<forall>z\<in>set zs. weight z = 0)
     \<and> groups (vertices s' ! i) =
         map (\<lambda>e. if group e \<in> bone_index_set s \<and> group e \<noteq> active_index s
                   then e\<lparr>weight := (1 - weight ea)
                          * (clamp (weight e)
                             / clamped_sum (\<lambda>e. group e \<in> bone_index_set s
                                                  \<and> group e \<noteq> active_index s)
                                 (groups (vertices s ! i)))\<rparr>
                   else e)
           (groups (vertices s ! i)) @ zs"
proof -
  let ?B = "bone_index_set s"
  let ?a = "active_index s"
  let ?gs0 = "groups (vertices s ! i)"
  let ?SO = "clamped_sum (\<lambda>e. group e \<in> ?B \<and> group e \<noteq> ?a) ?gs0"
  let ?F = "\<lambda>e. if group e \<in> ?B \<and> group e \<noteq> ?a
                   then e\<lparr>weight := (1 - weight ea) * (clamp (weight e) / ?SO)\<rparr> else e"
  from normalize_armature_closed_form [OF assms(1,2,3)] obtain zs where
    zs: "\<forall>z\<in>set zs. weight z = 0" "group ` set zs = ?B - group ` set ?gs0"
    and a: "?a \<in> ?B"
    and g: "groups (vertices s' ! i) = normalized_groups ?B ?a (?gs0 @ zs)"
    by blast
  let ?gs1 = "?gs0 @ zs"
  have sums: "clamped_sum P ?gs1 = clamped_sum P ?gs0" for P
    using zs(1) by (simp add: clamped_sum_append clamped_sum_zero)
  have single: "filter (\<lambda>e. group e = ?a) ?gs0 = [ea]"
    using filter_group_single [OF assms(3,4)] assms(5) by simp
  have "clamped_sum (\<lambda>e. group e = ?a) ?gs1 = clamped_sum (\<lambda>e. group e = ?a) ?gs0"
    by (rule sums)
  also have "\<dots> = weight ea"
    using assms(6,7) by (simp add: clamped_sum_def single clamp_simps)
  finally have A: "clamped_sum (\<lambda>e. group e = ?a) ?gs1 = weight ea" .
  have SO: "clamped_sum (\<lambda>e. group e \<in> ?B \<and> group e \<noteq> ?a) ?gs1 = ?SO" by (rule sums)
  have nw: "new_weight ?B ?a ?gs1 e =
     (if group e = ?a then clamp (weight e) else (1 - weight ea) * (clamp (weight e) / ?SO))"
    for e
    using new_weight_case_C [OF a, of ?gs1 e] assms(7,8) by (simp add: A SO)
  have only: "e = ea" if "e \<in> set ?gs0" "group e = ?a" for e
  proof -
    from that have "e \<in> set (filter (\<lambda>e. group e = ?a) ?gs0)" by simp
    then show ?thesis by (simp add: single)
  qed
  have old: "map (\<lambda>e. if group e \<in> ?B then e\<lparr>weight := new_weight ?B ?a ?gs1 e\<rparr> else e) ?gs0
      = map ?F ?gs0"
  proof (rule map_cong [OF refl])
    fix e assume e: "e \<in> set ?gs0"
    show "(if group e \<in> ?B then e\<lparr>weight := new_weight ?B ?a ?gs1 e\<rparr> else e) = ?F e"
    proof (cases "group e = ?a")
      case True
      with only [OF e] have "e = ea" by simp
      then have "e\<lparr>weight := clamp (weight e)\<rparr> = e"
        using assms(6,7) by (simp add: clamp_simps)
      with True show ?thesis by (simp add: nw)
    next
      case False
      then show ?thesis by (simp add: nw)
    qed
  qed
  have new: "map (\<lambda>e. if group e \<in> ?B then e\<lparr>weight := new_weight ?B ?a ?gs1 e\<rparr> else e) zs
      = zs"
  proof (rule map_idI)
    fix z assume z: "z \<in> set zs"
    then have "weight z = 0" using zs(1) by simp
    moreover have "group z \<noteq> ?a" using z zs(2) assms(4,5) by force
    ultimately show "(if group z \<in> ?B then z\<lparr>weight := new_weight ?B ?a ?gs1 z\<rparr> else z) = z"
      by (simp add: nw clamp_simps)
  qed
  have "groups (vertices s' ! i) = map ?F ?gs0 @ zs"
    unfolding g normalized_groups_def map_append old new ..
  with zs(1) show ?thesis by blast
qed

theorem case_C_rescales_others_witness:
  "normalize_armature two_armatures_ctx =
     Inr ([warning_report], FINISHED,
          two_armatures_ctx\<lparr>vertices :=
            [\<lparr>groups = [\<lparr>group = 0, weight = 1/2\<rparr>, \<lparr>group = 1, weight = 1/2\<rparr>,
                        \<lparr>group = 2, weight = 1/2\<rparr>],
              select = False\<rparr>]\<rparr>)
   \<and> (0::nat) < length (vertices two_armatures_ctx)
   \<and> distinct (map group (groups (vertices two_armatures_ctx ! 0)))
   \<and> \<lparr>group = 0, weight = 1/2\<rparr> \<in> set (groups (vertices two_armatures_ctx ! 0))
   \<and> group \<lparr>group = 0, weight = 1/2\<rparr> = active_index two_armatures_ctx
   \<and> (0::real) < weight \<lparr>group = 0, weight = 1/2\<rparr>
   \<and> weight \<lparr>group = 0, weight = 1/2\<rparr> < (1::real)
   \<and> clamped_sum (\<lambda>e. group e \<in> bone_index_set two_armatures_ctx
                         \<and> group e \<noteq> active_index two_armatures_ctx)
          (groups (vertices two_armatures_ctx ! 0)) = 1/4
   \<and> (\<exists>zs. groups (vertices (two_armatures_ctx\<lparr>vertices :=
            [\<lparr>groups = [\<lparr>group = 0, weight = 1/2\<rparr>, \<lparr>group = 1, weight = 1/2\<rparr>,
                        \<lparr>group = 2, weight = 1/2\<rparr>],
              select = False\<rparr>]\<rparr>) ! 0) =
         map (\<lambda>e. if group e \<in> bone_index_set two_armatures_ctx
                       \<and> group e \<noteq> active_index two_armatures_ctx
                   then e\<lparr>weight := (1 - weight \<lparr>group = 0, weight = 1/2\<rparr>)
                          * (clamp (weight e)
                             / clamped_sum (\<lambda>e. group e \<in> bone_index_set two_armatures_ctx
                                                  \<and> group e \<noteq> active_index two_armatures_ctx)
                                 (groups (vertices two_armatures_ctx ! 0)))\<rparr>
                   else e)
           (groups (vertices two_armatures_ctx ! 0)) @ zs)"
proof -
  have i: "(0::nat) < length (vertices two_armatures_ctx)"
    by (simp add: two_armatures_ctx_def)
  have d: "distinct (map group (groups (vertices two_armatures_ctx ! 0)))"
    by (simp add: two_armatures_ctx_def)
  have m: "\<lparr>group = 0, weight = 1/2\<rparr> \<in> set (groups (vertices two_armatures_ctx ! 0))"
    by (simp add: two_armatures_ctx_def)
  have a: "group \<lparr>group = 0, weight = 1/2\<rparr> = active_index two_armatures_ctx"
    by (simp add: two_armatures_ctx_def)
  have w: "(0::real) < weight \<lparr>group = 0, weight = 1/2\<rparr>"
    "weight \<lparr>group = 0, weight = 1/2\<rparr> < (1::real)"
    by simp_all
  have o: "clamped_sum (\<lambda>e. group e \<in> bone_index_set two_armatures_ctx
                         \<and> group e \<noteq> active_index two_armatures_ctx)
          (groups (vertices two_armatures_ctx ! 0)) = 1/4"
    unfolding two_armatures_bones
    by (simp add: two_armatures_ctx_def clamped_sum_def clamp_def)
  have o': "0 < clamped_sum (\<lambda>e. group e \<in> bone_index_set two_armatures_ctx
                         \<and> group e \<noteq> active_index two_armatures_ctx)
          (groups (vertices two_armatures_ctx ! 0))"
    unfolding o by simp
  note t = case_C_rescales_others [OF two_armatures_run i d m a w o']
  from t obtain zs where
    "groups (vertices (two_armatures_ctx\<lparr>vertices :=
            [\<lparr>groups = [\<lparr>group = 0, weight = 1/2\<rparr>, \<lparr>group = 1, weight = 1/2\<rparr>,
                        \<lparr>group = 2, weight = 1/2\<rparr>],
              select = False\<rparr>]\<rparr>) ! 0) =
         map (\<lambda>e. if group e \<in> bone_index_set two_armatures_ctx
                       \<and> group e \<noteq> active_index two_armatures_ctx
                   then e\<lparr>weight := (1 - weight \<lparr>group = 0, weight = 1/2\<rparr>)
                          * (clamp (weight e)
                             / clamped_sum (\<lambda>e. group e \<in> bone_index_set two_armatures_ctx
                                                  \<and> group e \<noteq> active_index two_armatures_ctx)
                                 (groups (vertices two_armatures_ctx ! 0)))\<rparr>
                   else e)
           (groups (vertices two_armatures_ctx ! 0)) @ zs"
    by blast
  then show ?thesis
    using two_armatures_run i d m a w o by blast
qed

subsection \<open>More than one armature\<close>

lemma normalize_with_bones_succeeds:
  assumes "bones \<noteq> []" "active_index s < length (vertex_groups s)"
    "vertex_groups s ! active_index s \<in> set bones" "mode s \<in> set restorable_modes"
  shows "\<exists>s'. normalize_with_bones bones n s =
     Inr (if n > 1 then [warning_report] else [], FINISHED, s')"
proof -
  let ?G = "get_bone_indexes s bones"
  obtain s1 where s1: "assign_all_groups s ?G = Inr s1"
    using assign_all_groups_result [OF assms(4)] by blast
  have a1: "active_index s1 = active_index s" using s1 by (rule assign_all_groups_Inr(2))
  have ain: "active_index s \<in> set ?G" using assms(2,3) by (rule active_in_bone_indexes)
  have "\<exists>v'. normalize_vertex (set ?G) (active_index s1) v1 = Inr v'"
    if "v1 \<in> set (vertices s1)" for v1
  proof -
    from that obtain i where i: "i < length (vertices s1)" "v1 = vertices s1 ! i"
      by (auto simp: in_set_conv_nth)
    have li: "i < length (vertices s)"
      using i(1) assign_all_groups_Inr(1) [OF s1] by (simp add: fold_assign_group_fields)
    note g = assign_all_groups_Inr_vertex(1) [OF get_bone_indexes_valid s1 li]
    obtain zs where zs: "add_missing (groups (vertices s ! i)) ?G (groups (vertices s ! i))
        = groups (vertices s ! i) @ zs"
      "group ` set zs = set ?G - group ` set (groups (vertices s ! i))"
      using add_missing_result [of "groups (vertices s ! i)" ?G] by blast
    have "active_index s \<in> group ` set (groups v1)"
      using ain zs g i(2) by (auto simp: image_Un)
    from apply_normalization_total [OF ain this]
    show ?thesis by (auto simp: normalize_vertex_def a1)
  qed
  then obtain vs where
    vs: "normalize_vertices (set ?G) (active_index s1) (vertices s1) = Inr vs"
    using normalize_vertices_total [of "vertices s1" "set ?G" "active_index s1"] by blast
  show ?thesis
    using assms(1,2,3) s1 vs
    by (simp add: normalize_with_bones_def Let_def warning_report_def)
qed

text \<open>
  C3, as the code has it. With two or more qualifying armature modifiers the search
  stops at the second one and keeps its bones, so the operator runs with the bones of
  the second qualifying modifier. If the active group names one of those bones, it
  reports the warning and returns \<open>FINISHED\<close>; if that armature has no bones, or the
  active group names none of them, it reports an error, without the warning, and returns
  \<open>CANCELLED\<close> with the state unchanged.
\<close>

theorem second_binding_is_used:
  assumes "qualifying_bones (modifiers s) = b1 # b2 # rest"
  shows "normalize_armature s = normalize_with_bones b2 2 s
    \<and> (b2 \<noteq> [] \<and> active_index s < length (vertex_groups s)
         \<and> vertex_groups s ! active_index s \<in> set b2 \<and> mode s \<in> set restorable_modes \<longrightarrow>
        (\<exists>s'. normalize_armature s = Inr ([warning_report], FINISHED, s')))
    \<and> (b2 = [] \<or> (active_index s < length (vertex_groups s)
                     \<and> vertex_groups s ! active_index s \<notin> set b2) \<longrightarrow>
        (\<exists>msg. normalize_armature s = Inr ([(''ERROR'', msg)], CANCELLED, s)))"
proof -
  have fb: "find_bones (modifiers s) [] 0 = (b2, 2)"
    using assms by (simp add: find_bones_zero)
  then have eq: "normalize_armature s = normalize_with_bones b2 2 s"
    by (simp add: normalize_armature_def)
  have ok: "\<exists>s'. normalize_armature s = Inr ([warning_report], FINISHED, s')"
    if "b2 \<noteq> [] \<and> active_index s < length (vertex_groups s)
         \<and> vertex_groups s ! active_index s \<in> set b2 \<and> mode s \<in> set restorable_modes"
    using normalize_with_bones_succeeds [of b2 s 2] that eq by simp
  have err: "\<exists>msg. normalize_armature s = Inr ([(''ERROR'', msg)], CANCELLED, s)"
    if "b2 = [] \<or> (active_index s < length (vertex_groups s)
                     \<and> vertex_groups s ! active_index s \<notin> set b2)"
    using that eq by (auto simp: normalize_with_bones_def)
  from eq ok err show ?thesis by blast
qed

theorem second_binding_is_used_witness:
  "qualifying_bones (modifiers two_armatures_ctx) = [''A'', ''B''] # [''A'', ''C''] # []
   \<and> normalize_armature two_armatures_ctx = normalize_with_bones [''A'', ''C''] 2 two_armatures_ctx
   \<and> [''A'', ''C''] \<noteq> []
   \<and> active_index two_armatures_ctx < length (vertex_groups two_armatures_ctx)
   \<and> vertex_groups two_armatures_ctx ! active_index two_armatures_ctx \<in> set [''A'', ''C'']
   \<and> mode two_armatures_ctx \<in> set restorable_modes
   \<and> (\<exists>s'. normalize_armature two_armatures_ctx = Inr ([warning_report], FINISHED, s'))"
proof -
  have q: "qualifying_bones (modifiers two_armatures_ctx) = [''A'', ''B''] # [''A'', ''C''] # []"
    by (simp add: two_armatures_ctx_def qualifying_bones_def armature_modifier_def)
  have h: "[''A'', ''C''] \<noteq> []
      \<and> active_index two_armatures_ctx < length (vertex_groups two_armatures_ctx)
      \<and> vertex_groups two_armatures_ctx ! active_index two_armatures_ctx \<in> set [''A'', ''C'']
      \<and> mode two_armatures_ctx \<in> set restorable_modes"
    by (simp add: two_armatures_ctx_def restorable_modes_def)
  note t = second_binding_is_used [OF q]
  from t h have "\<exists>s'. normalize_armature two_armatures_ctx = Inr ([warning_report], FINISHED, s')"
    by blast
  with t q h show ?thesis by blast
qed

text \<open>
  C3, as stated, fails: with the armatures \<open>A, B\<close> and \<open>A, C\<close> the run gives the result of
  normalizing with the bones \<open>A, C\<close> of the second armature, which differs from the
  result for the bones \<open>A, B\<close> of the first.
\<close>

theorem second_armature_wins:
  "qualifying_bones (modifiers two_armatures_ctx) = [[''A'', ''B''], [''A'', ''C'']]
   \<and> normalize_armature two_armatures_ctx =
     Inr ([warning_report], FINISHED,
          two_armatures_ctx\<lparr>vertices :=
            [\<lparr>groups = [\<lparr>group = 0, weight = 1/2\<rparr>, \<lparr>group = 1, weight = 1/2\<rparr>,
                        \<lparr>group = 2, weight = 1/2\<rparr>],
              select = False\<rparr>]\<rparr>)
   \<and> normalize_with_bones [''A'', ''B''] 2 two_armatures_ctx =
     Inr ([warning_report], FINISHED, two_armatures_ctx)
   \<and> normalize_with_bones [''A'', ''C''] 2 two_armatures_ctx =
     Inr ([warning_report], FINISHED,
          two_armatures_ctx\<lparr>vertices :=
            [\<lparr>groups = [\<lparr>group = 0, weight = 1/2\<rparr>, \<lparr>group = 1, weight = 1/2\<rparr>,
                        \<lparr>group = 2, weight = 1/2\<rparr>],
              select = False\<rparr>]\<rparr>)"
  by code_simp

end
